theory Spec2Isabelle
  imports Main
begin

section \<open>TritJS-CISA-Optimized: data model\<close>

text \<open>
  The source's \<open>T81BigInt\<close>: a sign (an \<open>int\<close> holding 0 for positive and 1 for
  negative) and little-endian base-81 digits kept in \<open>unsigned char\<close> cells. The list
  is the buffer \<open>digits[0 .. len - 1]\<close>, so \<open>len\<close> is the list's length. A cell is a
  natural number; a store that could leave the range of \<open>unsigned char\<close> is written
  with its \<open>mod 256\<close>. The mapping bookkeeping (\<open>is_mapped\<close>, \<open>fd\<close>, \<open>tmp_path\<close>) holds
  no part of the value and is left out; allocation is taken to succeed.
\<close>

record T81BigInt =
  sign :: nat
  digits :: "nat list"

text \<open>The error codes of the source, as listed above its \<open>TritError\<close> typedef (0 is success).\<close>

datatype TritError =
  MemAlloc | InvalidInput | DivZero | Overflow | Undefined | Negative
  | PrecisionErr | MMapFail | ScriptErr

abbreviation (input) BASE_81 :: nat where
  "BASE_81 \<equiv> 81"

text \<open>
  \<open>allocate_digits(x, n)\<close> points \<open>x->digits\<close> at a fresh zeroed buffer of \<open>n\<close> cells
  and sets \<open>x->len = n\<close>; nothing of the old buffer is copied.
\<close>

definition allocate_digits :: "nat \<Rightarrow> nat list" where
  "allocate_digits lengthNeeded = replicate lengthNeeded 0"

text \<open>
  The conversion \<open>(unsigned char) x\<close> of an \<open>int\<close>, as a store of an \<open>int\<close> into a cell
  performs it.
\<close>

definition to_uchar :: "int \<Rightarrow> nat" where
  "to_uchar x = nat (x mod 256)"

text \<open>The loop \<open>while (len > 1 && digits[len - 1] == 0) len--\<close> that ends most operations.\<close>

function strip_high :: "nat list \<Rightarrow> nat list" where
  "strip_high ds =
     (if length ds > 1 \<and> ds ! (length ds - 1) = 0
      then strip_high (take (length ds - 1) ds) else ds)"
  by pat_completeness auto
termination
  by (relation "measure length") auto

declare strip_high.simps [simp del]

section \<open>Base conversion and parsing\<close>

text \<open>
  One pass of \<open>for (j = 0; j < out->len; j++) { val = digits[j] * m + carry; ... }\<close>:
  the digits are multiplied by \<open>m\<close> (3 or 81) with \<open>carry\<close> added in; the result is
  the new digits and the carry that leaves the top cell.
\<close>

fun mul_add_pass :: "nat \<Rightarrow> nat list \<Rightarrow> nat \<Rightarrow> nat list \<times> nat" where
  "mul_add_pass m [] carry = ([], carry)"
| "mul_add_pass m (d # ds) carry =
     (let val = d * m + carry;
          (ds', c') = mul_add_pass m ds (val div BASE_81)
      in ((val mod BASE_81) # ds', c'))"

text \<open>
  The growth loop \<open>while (carry) { old_len = len; allocate_digits(out, len + 1);
  digits[old_len] = carry % 81; carry /= 81; }\<close>. The call to \<open>allocate_digits\<close>
  replaces the buffer by a zeroed one, so the cells below \<open>old_len\<close> read 0 afterwards.
\<close>

function grow_carry :: "nat list \<Rightarrow> nat \<Rightarrow> nat list" where
  "grow_carry ds carry =
     (if carry = 0 then ds
      else grow_carry ((allocate_digits (length ds + 1))[length ds := carry mod BASE_81])
             (carry div BASE_81))"
  by pat_completeness auto
termination
  by (relation "measure snd") auto

declare grow_carry.simps [simp del]

text \<open>The first loop of the parser: the leading \<open>total_len % 4\<close> characters, one trit each.\<close>

fun parse_head :: "string \<Rightarrow> nat list \<Rightarrow> TritError + nat list" where
  "parse_head [] ds = Inr ds"
| "parse_head (c # s) ds =
     (let digit = int (of_char c :: nat) - 48 in
      if digit < 0 \<or> digit > 2 then Inl InvalidInput
      else (let (ds', carry) = mul_add_pass 3 ds (nat digit)
            in parse_head s (grow_carry ds' carry)))"

text \<open>
  The value of one group of four characters; \<open>None\<close> is the source's \<open>return 2\<close>. A
  group that runs past the end of the text reads the terminating NUL, which is below
  \<open>'0'\<close>.
\<close>

fun group_val :: "nat \<Rightarrow> string \<Rightarrow> nat \<Rightarrow> nat option" where
  "group_val 0 s groupVal = Some groupVal"
| "group_val (Suc k) [] groupVal = None"
| "group_val (Suc k) (c # s) groupVal =
     (if (of_char c :: nat) < 48 \<or> (of_char c :: nat) > 50 then None
      else group_val k s (groupVal * 3 + ((of_char c :: nat) - 48)))"

text \<open>The second loop: \<open>while (pos < strlen(str))\<close>, four characters per turn.\<close>

fun parse_groups :: "string \<Rightarrow> nat list \<Rightarrow> TritError + nat list" where
  "parse_groups [] ds = Inr ds"
| "parse_groups (c # s) ds =
     (case group_val 4 (c # s) 0 of
        None \<Rightarrow> Inl InvalidInput
      | Some groupVal \<Rightarrow>
          (let (ds', carry) = mul_add_pass 81 ds groupVal
           in parse_groups (drop 3 s) (grow_carry ds' carry)))"

text \<open>
  \<open>parse_trit_string_base81_optimized\<close>. The second test of
  \<open>str[0] == '-' || str[0] == '\<dots>'\<close> compares a \<open>char\<close> with a multi-character
  constant (the three bytes of a dash outside ASCII) and is false for every \<open>char\<close>.
\<close>

definition parse_trit_string_base81_optimized :: "string \<Rightarrow> TritError + T81BigInt" where
  "parse_trit_string_base81_optimized str =
     (if str = [] then Inl InvalidInput
      else
        (let sgn = (if hd str = CHR ''-'' then 1 else 0);
             pos = (if hd str = CHR ''-'' then 1 else 0);
             body = drop pos str;
             total_len = length str - pos;
             remainder = total_len mod 4
         in case parse_head (take remainder body) (allocate_digits 1) of
              Inl e \<Rightarrow> Inl e
            | Inr ds1 \<Rightarrow>
                (case parse_groups (drop remainder body) ds1 of
                   Inl e \<Rightarrow> Inl e
                 | Inr ds2 \<Rightarrow> Inr \<lparr>sign = sgn, digits = strip_high ds2\<rparr>)))"

definition parse_trit_string :: "string \<Rightarrow> TritError + T81BigInt" where
  "parse_trit_string s = parse_trit_string_base81_optimized s"

text \<open>
  \<open>parse_balanced_trit_string\<close>: every character is rewritten (\<open>'-'\<close> to \<open>'0'\<close>,
  \<open>'0'\<close> to \<open>'1'\<close>, \<open>'+'\<close> to \<open>'2'\<close>), any other character is \<open>return 2\<close>, and the
  rewritten text goes to \<open>parse_trit_string\<close>.
\<close>

fun balanced_unb :: "string \<Rightarrow> string option" where
  "balanced_unb [] = Some []"
| "balanced_unb (c # s) =
     (if c = CHR ''-'' then map_option ((#) CHR ''0'') (balanced_unb s)
      else if c = CHR ''0'' then map_option ((#) CHR ''1'') (balanced_unb s)
      else if c = CHR ''+'' then map_option ((#) CHR ''2'') (balanced_unb s)
      else None)"

definition parse_balanced_trit_string :: "string \<Rightarrow> TritError + T81BigInt" where
  "parse_balanced_trit_string s =
     (case balanced_unb s of
        None \<Rightarrow> Inl InvalidInput
      | Some unb \<Rightarrow> parse_trit_string unb)"

text \<open>
  The value a little-endian base-81 digit list stands for; it is the measure of the
  printing loop and the yardstick of the arithmetic claims.
\<close>

fun limbs_val :: "nat list \<Rightarrow> nat" where
  "limbs_val [] = 0"
| "limbs_val (d # ds) = d + BASE_81 * limbs_val ds"

text \<open>
  One turn of the printing loop's inner \<open>for (i = len - 1; i >= 0; i--)\<close>: the digits
  are divided by 3 from the top cell down; the result is the quotient's digits and the
  last \<open>carry\<close>, the trit to print. A cell of the source holds at most 255, so
  \<open>q = val / 3\<close> is at most 139 and its store does not wrap.
\<close>

fun div3_pass :: "nat list \<Rightarrow> nat list \<times> nat" where
  "div3_pass [] = ([], 0)"
| "div3_pass (d # ds) =
     (let (qs, carry) = div3_pass ds;
          val = d + carry * BASE_81
      in ((val div 3) # qs, val mod 3))"

lemma div3_pass_val:
  "div3_pass ds = (qs, c) \<Longrightarrow> 3 * limbs_val qs + c = limbs_val ds \<and> c < 3"
proof (induction ds arbitrary: qs c)
  case Nil
  then show ?case by simp
next
  case (Cons d ds)
  obtain qs' c' where p: "div3_pass ds = (qs', c')" by (cases "div3_pass ds")
  from Cons.IH [OF p] have ih: "3 * limbs_val qs' + c' = limbs_val ds" by simp
  from Cons.prems p have qs: "qs = ((d + c' * 81) div 3) # qs'" and c: "c = (d + c' * 81) mod 3"
    by (simp_all add: Let_def)
  have "3 * ((d + c' * 81) div 3) + (d + c' * 81) mod 3 = d + c' * 81" by simp
  with ih show ?case unfolding qs c by (simp add: algebra_simps)
qed

lemma limbs_val_zero: "limbs_val ds = 0 \<longleftrightarrow> list_all (\<lambda>d. d = 0) ds"
  by (induction ds) auto

text \<open>
  The \<open>while (1)\<close> of \<open>t81bigint_to_trit_string\<close>; \<open>buf\<close> is what has been written so
  far (least significant trit first).
\<close>

function trit_loop :: "nat list \<Rightarrow> string \<Rightarrow> string" where
  "trit_loop ds buf =
     (if list_all (\<lambda>d. d = 0) ds then (if buf = [] then ''0'' else buf)
      else (let (qs, carry) = div3_pass ds
            in trit_loop qs (buf @ [char_of (48 + carry)])))"
  by pat_completeness auto
termination
proof (relation "measure (\<lambda>(ds, buf). limbs_val ds)")
  show "wf (measure (\<lambda>(ds, buf). limbs_val ds))" by simp
next
  fix ds :: "nat list" and buf :: string and x :: "nat list \<times> nat" and qs carry
  assume nz: "\<not> list_all (\<lambda>d. d = 0) ds" and x: "x = div3_pass ds" and xc: "(qs, carry) = x"
  from x xc have "div3_pass ds = (qs, carry)" by simp
  from div3_pass_val [OF this] have "3 * limbs_val qs + carry = limbs_val ds" by simp
  moreover from nz have "limbs_val ds \<noteq> 0" by (simp add: limbs_val_zero)
  ultimately have "limbs_val qs < limbs_val ds" by arith
  then show "((qs, buf @ [char_of (48 + carry)]), (ds, buf)) \<in> measure (\<lambda>(ds, buf). limbs_val ds)"
    by simp
qed

declare trit_loop.simps [simp del]

text \<open>
  \<open>t81bigint_to_trit_string\<close>: the single-cell zero prints as \<open>"0"\<close> (whatever its
  sign); otherwise the trits are produced least significant first, a \<open>'-'\<close> is appended
  when \<open>sign\<close> is not 0, and the buffer is reversed.
\<close>

definition t81bigint_to_trit_string :: "T81BigInt \<Rightarrow> string" where
  "t81bigint_to_trit_string x =
     (if length (digits x) = 1 \<and> digits x ! 0 = 0 then ''0''
      else (let buf = trit_loop (digits x) [];
                buf' = (if sign x \<noteq> 0 then buf @ ''-'' else buf)
            in rev buf'))"

section \<open>Addition and subtraction\<close>

text \<open>
  \<open>cmp_base81\<close>: a longer operand with a non-zero cell above the shorter one's length
  decides at once; otherwise the common cells are compared from the top down.
\<close>

fun cmp_from :: "nat \<Rightarrow> nat list \<Rightarrow> nat list \<Rightarrow> int" where
  "cmp_from 0 a b = 0"
| "cmp_from (Suc i) a b =
     (if a ! i < b ! i then - 1 else if a ! i > b ! i then 1 else cmp_from i a b)"

definition cmp_base81 :: "nat list \<Rightarrow> nat list \<Rightarrow> int" where
  "cmp_base81 a b =
     (if length a > length b \<and> list_ex (\<lambda>d. d \<noteq> 0) (drop (length b) a) then 1
      else if length b > length a \<and> list_ex (\<lambda>d. d \<noteq> 0) (drop (length a) b) then - 1
      else cmp_from (min (length a) (length b)) a b)"

text \<open>
  The carry loop of the same-sign branch:
  \<open>while (carry && cpos < len) { val = digits[cpos] + carry; ... cpos++; }\<close>.
\<close>

function add_carry_loop :: "nat list \<Rightarrow> nat \<Rightarrow> nat \<Rightarrow> nat list" where
  "add_carry_loop res carry cpos =
     (if carry \<noteq> 0 \<and> cpos < length res
      then (let val = res ! cpos + carry
            in add_carry_loop (res[cpos := val mod BASE_81]) (val div BASE_81) (cpos + 1))
      else res)"
  by pat_completeness auto
termination
  by (relation "measure (\<lambda>(res, carry, cpos). length res - cpos)") auto

declare add_carry_loop.simps [simp del]

text \<open>
  The borrow loop of the opposite-sign branch, on \<open>unsigned char\<close> cells:
  \<open>while (1) { digits[j]--; if (digits[j] < 255) break; digits[j] += 81; j++;
  if (j >= larger->len) break; }\<close>.
\<close>

function borrow_loop :: "nat list \<Rightarrow> nat \<Rightarrow> nat \<Rightarrow> nat list" where
  "borrow_loop res j n =
     (let res1 = res[j := (res ! j + 255) mod 256] in
      if res1 ! j < 255 then res1
      else (let res2 = res1[j := (res1 ! j + BASE_81) mod 256] in
            if j + 1 \<ge> n then res2 else borrow_loop res2 (j + 1) n))"
  by pat_completeness auto
termination
  by (relation "measure (\<lambda>(res, j, n). n - j)") auto

declare borrow_loop.simps [simp del]

text \<open>
  \<open>tritjs_add_big\<close>. With equal signs the digits are added into a buffer one cell
  longer than the longer operand; otherwise the smaller magnitude is subtracted from a
  copy of the larger one, and equal magnitudes give the single-cell zero with sign 0.
  In the subtraction the difference of two cells is an \<open>int\<close>, 81 is added once when
  it is negative, and \<open>digits[i] = (unsigned char)diff\<close> stores it. Both branches end
  with the stripping loop.
\<close>

definition tritjs_add_big :: "T81BigInt \<Rightarrow> T81BigInt \<Rightarrow> T81BigInt" where
  "tritjs_add_big A B =
     (if sign A = sign B then
        (let len = max (length (digits A)) (length (digits B)) + 1;
             res0 = digits A @ replicate (len - length (digits A)) 0;
             res = fold (\<lambda>i res.
                     (let val = res ! i + digits B ! i
                      in add_carry_loop (res[i := val mod BASE_81]) (val div BASE_81) (i + 1)))
                   [0..<length (digits B)] res0
         in \<lparr>sign = sign A, digits = strip_high res\<rparr>)
      else
        (let c = cmp_base81 (digits A) (digits B) in
         if c = 0 then \<lparr>sign = 0, digits = [0]\<rparr>
         else
           (let larger = (if c > 0 then A else B);
                smaller = (if c > 0 then B else A);
                res = fold (\<lambda>i res.
                        (let diff = int (res ! i) - int (digits smaller ! i) in
                         if diff < 0
                         then (borrow_loop res (i + 1) (length (digits larger)))
                                [i := to_uchar (diff + 81)]
                         else res[i := to_uchar diff]))
                      [0..<length (digits smaller)] (digits larger)
            in \<lparr>sign = sign larger, digits = strip_high res\<rparr>)))"

text \<open>\<open>tritjs_subtract_big\<close>: the second operand's sign is replaced by \<open>!sign\<close>.\<close>

definition tritjs_subtract_big :: "T81BigInt \<Rightarrow> T81BigInt \<Rightarrow> T81BigInt" where
  "tritjs_subtract_big A B = tritjs_add_big A (B\<lparr>sign := (if sign B = 0 then 1 else 0)\<rparr>)"

section \<open>Multiplication\<close>

text \<open>
  \<open>naive_mul\<close>: the schoolbook product of \<open>A[0 .. alen - 1]\<close> and \<open>B[0 .. blen - 1]\<close>
  into \<open>alen + blen\<close> zeroed cells. The inner loop is
  \<open>for (j = 0; j < blen; j++) { pos = i + j; val = out[pos] + A[i] * B[j] + carry;
  out[pos] = val % 81; carry = val / 81; }\<close>, and after it the row's last carry is
  added to the \<open>unsigned char\<close> cell \<open>out[i + blen]\<close>.
\<close>

function naive_inner ::
  "nat list \<Rightarrow> nat list \<Rightarrow> nat \<Rightarrow> nat \<Rightarrow> nat \<Rightarrow> nat list \<Rightarrow> nat \<Rightarrow> nat list \<times> nat" where
  "naive_inner A B i blen j out carry =
     (if j < blen
      then (let pos = i + j;
                val = out ! pos + A ! i * B ! j + carry
            in naive_inner A B i blen (j + 1) (out[pos := val mod BASE_81]) (val div BASE_81))
      else (out, carry))"
  by pat_completeness auto
termination
  by (relation "measure (\<lambda>(A, B, i, blen, j, out, carry). blen - j)") auto

declare naive_inner.simps [simp del]

function naive_outer :: "nat list \<Rightarrow> nat \<Rightarrow> nat list \<Rightarrow> nat \<Rightarrow> nat \<Rightarrow> nat list \<Rightarrow> nat list" where
  "naive_outer A alen B blen i out =
     (if i < alen
      then (let (out1, carry) = naive_inner A B i blen 0 out 0
            in naive_outer A alen B blen (i + 1)
                 (out1[i + blen := (out1 ! (i + blen) + carry) mod 256]))
      else out)"
  by pat_completeness auto
termination
  by (relation "measure (\<lambda>(A, alen, B, blen, i, out). alen - i)") auto

declare naive_outer.simps [simp del]

definition naive_mul :: "nat list \<Rightarrow> nat \<Rightarrow> nat list \<Rightarrow> nat \<Rightarrow> nat list" where
  "naive_mul A alen B blen = naive_outer A alen B blen 0 (replicate (alen + blen) 0)"

text \<open>
  \<open>add_shifted\<close>: \<open>dest += src * 81^shift\<close> within the \<open>dlen\<close> cells of \<open>dest\<close>. The
  first loop stops early (\<open>break\<close>) at the end of \<open>dest\<close>; the second one carries on
  from cell \<open>slen + shift\<close>.
\<close>

function add_shifted_loop ::
  "nat list \<Rightarrow> nat list \<Rightarrow> nat \<Rightarrow> nat \<Rightarrow> nat \<Rightarrow> nat \<Rightarrow> nat list \<times> nat" where
  "add_shifted_loop dest src slen shift i carry =
     (if i < slen
      then (let idx = i + shift in
            if idx \<ge> length dest then (dest, carry)
            else (let sum = dest ! idx + src ! i + carry
                  in add_shifted_loop (dest[idx := sum mod BASE_81]) src slen shift (i + 1)
                       (sum div BASE_81)))
      else (dest, carry))"
  by pat_completeness auto
termination
  by (relation "measure (\<lambda>(dest, src, slen, shift, i, carry). slen - i)") auto

declare add_shifted_loop.simps [simp del]

function add_shifted_tail :: "nat list \<Rightarrow> nat \<Rightarrow> nat \<Rightarrow> nat list" where
  "add_shifted_tail dest carry idx =
     (if carry \<noteq> 0 \<and> idx < length dest
      then (let sum = dest ! idx + carry
            in add_shifted_tail (dest[idx := sum mod BASE_81]) (sum div BASE_81) (idx + 1))
      else dest)"
  by pat_completeness auto
termination
  by (relation "measure (\<lambda>(dest, carry, idx). length dest - idx)") auto

declare add_shifted_tail.simps [simp del]

definition add_shifted :: "nat list \<Rightarrow> nat list \<Rightarrow> nat \<Rightarrow> nat \<Rightarrow> nat list" where
  "add_shifted dest src slen shift =
     (let (dest1, carry) = add_shifted_loop dest src slen shift 0 0
      in add_shifted_tail dest1 carry (slen + shift))"

text \<open>
  \<open>sub_inplace\<close>: \<open>out -= src\<close> over \<open>length\<close> cells with a borrow; the borrow out of
  the last cell is dropped. The difference is an \<open>int\<close> (81 is added once when it is
  negative) and \<open>out[i] = diff\<close> stores it into an \<open>unsigned char\<close>.
\<close>

function sub_loop :: "nat list \<Rightarrow> nat list \<Rightarrow> nat \<Rightarrow> nat \<Rightarrow> int \<Rightarrow> nat list" where
  "sub_loop out src len i borrow =
     (if i < len
      then (let diff = int (out ! i) - int (src ! i) - borrow in
            if diff < 0 then sub_loop (out[i := to_uchar (diff + 81)]) src len (i + 1) 1
            else sub_loop (out[i := to_uchar diff]) src len (i + 1) 0)
      else out)"
  by pat_completeness auto
termination
  by (relation "measure (\<lambda>(out, src, len, i, borrow). len - i)") auto

declare sub_loop.simps [simp del]

definition sub_inplace :: "nat list \<Rightarrow> nat list \<Rightarrow> nat \<Rightarrow> nat list" where
  "sub_inplace out src len = sub_loop out src len 0 0"

text \<open>
  The sum of the two halves in \<open>karatsuba\<close>: \<open>sumA\<close> starts as the \<open>r\<close> cells of the
  upper half and the \<open>half\<close> cells of the lower half are added by
  \<open>for (i = 0; i < half; i++) { s = sumA[i] + A0[i]; sumA[i] = s % 81; c = s / 81;
  if (c && i + 1 < r) sumA[i + 1] += c; }\<close>: a carry out of cell \<open>r - 1\<close> goes nowhere.
\<close>

function half_sum_loop :: "nat list \<Rightarrow> nat list \<Rightarrow> nat \<Rightarrow> nat \<Rightarrow> nat \<Rightarrow> nat list" where
  "half_sum_loop sumA A0 half r i =
     (if i < half
      then (let s = sumA ! i + A0 ! i;
                sumA1 = sumA[i := s mod BASE_81];
                c = s div BASE_81
            in half_sum_loop
                 (if c \<noteq> 0 \<and> i + 1 < r then sumA1[i + 1 := (sumA1 ! (i + 1) + c) mod 256]
                  else sumA1)
                 A0 half r (i + 1))
      else sumA)"
  by pat_completeness auto
termination
  by (relation "measure (\<lambda>(sumA, A0, half, r, i). half - i)") auto

declare half_sum_loop.simps [simp del]

definition half_sum :: "nat list \<Rightarrow> nat list \<Rightarrow> nat \<Rightarrow> nat \<Rightarrow> nat list" where
  "half_sum A1 A0 half r = half_sum_loop (take r A1) A0 half r 0"

text \<open>
  \<open>karatsuba(A, B, n, out)\<close>: the product of the first \<open>n\<close> cells of \<open>A\<close> and \<open>B\<close> in
  \<open>2 * n\<close> cells. The three partial products are written into zeroed buffers of
  \<open>2 * n\<close> cells, of which a recursive call fills the lower part.
\<close>

function karatsuba :: "nat list \<Rightarrow> nat list \<Rightarrow> nat \<Rightarrow> nat list" where
  "karatsuba A B n =
     (if n \<le> 16 then naive_mul A n B n
      else
        (let half = n div 2; r = n - half;
             A0 = A; A1 = drop half A;
             B0 = B; B1 = drop half B;
             len2 = 2 * n;
             p1 = karatsuba A0 B0 half @ replicate (len2 - 2 * half) 0;
             p2 = karatsuba A1 B1 r @ replicate (len2 - 2 * r) 0;
             sumA = half_sum A1 A0 half r;
             sumB = half_sum B1 B0 half r;
             p3 = karatsuba sumA sumB r @ replicate (len2 - 2 * r) 0;
             p3a = sub_inplace p3 p1 len2;
             p3b = sub_inplace p3a p2 len2;
             out0 = replicate len2 0;
             out1 = add_shifted out0 p1 len2 0;
             out2 = add_shifted out1 p3b len2 half
         in add_shifted out2 p2 len2 (2 * half)))"
  by pat_completeness auto
termination
  by (relation "measure (\<lambda>(A, B, n). n)") auto

declare karatsuba.simps [simp del]

text \<open>
  \<open>t81bigint_karatsuba_multiply\<close>: a single-cell zero operand gives the single-cell
  zero; otherwise both operands are zero-padded to the longer length, multiplied by
  \<open>karatsuba\<close>, and the product is stripped. The sign is 1 exactly when the signs differ.
\<close>

definition t81bigint_karatsuba_multiply :: "T81BigInt \<Rightarrow> T81BigInt \<Rightarrow> T81BigInt" where
  "t81bigint_karatsuba_multiply a b =
     (if (length (digits a) = 1 \<and> digits a ! 0 = 0) \<or> (length (digits b) = 1 \<and> digits b ! 0 = 0)
      then \<lparr>sign = 0, digits = [0]\<rparr>
      else
        (let n = max (length (digits a)) (length (digits b));
             A = digits a @ replicate (n - length (digits a)) 0;
             B = digits b @ replicate (n - length (digits b)) 0;
             prod = karatsuba A B n
         in \<lparr>sign = (if sign a \<noteq> sign b then 1 else 0), digits = strip_high prod\<rparr>))"

subsection \<open>The multiplication cache\<close>

text \<open>
  The global \<open>mul_cache[MUL_CACHE_SIZE]\<close> is passed in and returned. A program starts
  with every entry unused.
\<close>

record MulCacheEntry =
  key :: string
  result :: T81BigInt
  used :: bool

type_synonym mul_cache = "MulCacheEntry list"

abbreviation (input) MUL_CACHE_SIZE :: nat where
  "MUL_CACHE_SIZE \<equiv> 8"

definition empty_cache :: mul_cache where
  "empty_cache = replicate MUL_CACHE_SIZE \<lparr>key = [], result = \<lparr>sign = 0, digits = []\<rparr>, used = False\<rparr>"

text \<open>\<open>mul_cache_lookup\<close>: the first used entry whose key is the given text.\<close>

fun mul_cache_lookup :: "mul_cache \<Rightarrow> string \<Rightarrow> T81BigInt option" where
  "mul_cache_lookup [] k = None"
| "mul_cache_lookup (e # es) k =
     (if used e \<and> key e = k then Some (result e) else mul_cache_lookup es k)"

text \<open>
  \<open>mul_cache_store\<close>: the first unused slot, or slot 0 when all are used; the key is
  copied into \<open>char key[128]\<close> and cut after 127 characters.
\<close>

fun first_unused :: "mul_cache \<Rightarrow> nat \<Rightarrow> nat option" where
  "first_unused [] i = None"
| "first_unused (e # es) i = (if \<not> used e then Some i else first_unused es (i + 1))"

definition mul_cache_store :: "mul_cache \<Rightarrow> string \<Rightarrow> T81BigInt \<Rightarrow> mul_cache" where
  "mul_cache_store cache k val =
     (let slot = (case first_unused cache 0 of None \<Rightarrow> 0 | Some i \<Rightarrow> i)
      in cache[slot := \<lparr>key = take 127 k, result = val, used = True\<rparr>])"

text \<open>
  The key of \<open>multiply_with_cache\<close>:
  \<open>snprintf(key, sizeof(key), "mul:%s:%s", as, bs)\<close> with \<open>char key[128]\<close>, so at most
  127 characters of the text are kept.
\<close>

definition mul_cache_key :: "T81BigInt \<Rightarrow> T81BigInt \<Rightarrow> string" where
  "mul_cache_key a b =
     take 127 (''mul:'' @ t81bigint_to_trit_string a @ '':'' @ t81bigint_to_trit_string b)"

definition multiply_with_cache :: "mul_cache \<Rightarrow> T81BigInt \<Rightarrow> T81BigInt \<Rightarrow> mul_cache \<times> T81BigInt" where
  "multiply_with_cache cache a b =
     (let k = mul_cache_key a b in
      case mul_cache_lookup cache k of
        Some out \<Rightarrow> (cache, out)
      | None \<Rightarrow>
          (let out = t81bigint_karatsuba_multiply a b
           in (mul_cache_store cache k out, out)))"

definition tritjs_multiply_big :: "mul_cache \<Rightarrow> T81BigInt \<Rightarrow> T81BigInt \<Rightarrow> mul_cache \<times> T81BigInt" where
  "tritjs_multiply_big cache a b = multiply_with_cache cache a b"

section \<open>Power\<close>

definition is_small_value :: "T81BigInt \<Rightarrow> bool" where
  "is_small_value x \<longleftrightarrow> length (digits x) = 1 \<and> digits x ! 0 < 81"

definition to_small_int :: "T81BigInt \<Rightarrow> int" where
  "to_small_int x = (let val = int (digits x ! 0) in if sign x \<noteq> 0 then - val else val)"

text \<open>The loop \<open>for (i = 0; i < e; i++) result = multiply_with_cache(result, base)\<close>.\<close>

fun power_loop :: "nat \<Rightarrow> mul_cache \<Rightarrow> T81BigInt \<Rightarrow> T81BigInt \<Rightarrow> mul_cache \<times> T81BigInt" where
  "power_loop 0 cache res base = (cache, res)"
| "power_loop (Suc k) cache res base =
     (let (cache', tmp) = multiply_with_cache cache res base
      in power_loop k cache' tmp base)"

text \<open>
  \<open>tritjs_power_big\<close>: an exponent with a sign is error 6, one of more than one cell
  error 4, and so is one above 1000; the result starts as one and is multiplied by the
  base \<open>e\<close> times; a base with a sign and an odd \<open>e\<close> set the result's sign.
\<close>

definition tritjs_power_big ::
  "mul_cache \<Rightarrow> T81BigInt \<Rightarrow> T81BigInt \<Rightarrow> mul_cache \<times> (TritError + T81BigInt)" where
  "tritjs_power_big cache base exp =
     (if sign exp \<noteq> 0 then (cache, Inl Negative)
      else if \<not> is_small_value exp then (cache, Inl Overflow)
      else
        (let e = to_small_int exp in
         if e > 1000 then (cache, Inl Overflow)
         else
           (let (cache', res) = power_loop (nat e) cache \<lparr>sign = 0, digits = [1]\<rparr> base
            in (cache', Inr (if sign base \<noteq> 0 \<and> e mod 2 = 1 then res\<lparr>sign := 1\<rparr> else res)))))"

section \<open>Division\<close>

text \<open>
  The product \<open>b * mul_digit\<close> as \<open>tritjs_divide_big\<close> forms it, over as many cells as
  the running remainder has: \<open>val = (j < b->len ? b->digits[j] * mul_digit : 0) + carry\<close>.
  The result is the cells and the carry out of the last one.
\<close>

definition scale_pass :: "nat list \<Rightarrow> nat \<Rightarrow> nat \<Rightarrow> nat list \<times> nat" where
  "scale_pass b mul_digit n =
     fold (\<lambda>j (prod, carry).
        (let val = (if j < length b then b ! j * mul_digit else 0) + carry
         in (prod[j := val mod BASE_81], val div BASE_81)))
       [0..<n] (allocate_digits n, 0)"

text \<open>
  The trial product inside the search: when a carry is left, \<open>allocate_digits\<close> gives
  \<open>prod\<close> a zeroed buffer one cell longer and the carry is stored in its top cell.
\<close>

definition trial_prod :: "nat list \<Rightarrow> nat \<Rightarrow> nat \<Rightarrow> nat list" where
  "trial_prod b mul_digit n =
     (let (prod, carry) = scale_pass b mul_digit n in
      if carry \<noteq> 0 then (allocate_digits (n + 1))[n := carry mod 256] else prod)"

text \<open>
  The search \<open>while (1) { mul_digit = q_digit + 1; ... if (cmp_base81(remainder, prod) < 0)
  break; q_digit++; }\<close>. The loop has no other exit, so it is a partial function: \<open>None\<close>
  is a search that never ends.
\<close>

partial_function (option) q_search :: "nat list \<Rightarrow> nat list \<Rightarrow> nat \<Rightarrow> nat option" where
  "q_search rem b q_digit =
     (if cmp_base81 rem (trial_prod b (q_digit + 1) (length rem)) < 0 then Some q_digit
      else q_search rem b (q_digit + 1))"

declare q_search.simps [code]

text \<open>
  The body of \<open>for (i = a->len - 1; i >= 0; i--)\<close>, from cell \<open>i - 1\<close> down to cell 0:
  the remainder is shifted up by one cell with \<open>a->digits[i]\<close> below it, the quotient
  digit is searched, stored in an \<open>unsigned char\<close>, and \<open>b * q_digit\<close> (over the
  remainder's cells, its carry dropped) is subtracted by \<open>tritjs_subtract_big\<close>. The
  remainder's and the product's signs are the 0 of \<open>calloc\<close>.
\<close>

fun divide_loop ::
  "nat \<Rightarrow> nat list \<Rightarrow> nat list \<Rightarrow> nat list \<Rightarrow> T81BigInt \<Rightarrow> (nat list \<times> T81BigInt) option" where
  "divide_loop 0 a b quot rem = Some (quot, rem)"
| "divide_loop (Suc i) a b quot rem =
     (let newR = (a ! i) # digits rem in
      case q_search newR b 0 of
        None \<Rightarrow> None
      | Some q_digit \<Rightarrow>
          (let prod = fst (scale_pass b q_digit (length newR));
               temp = tritjs_subtract_big (rem\<lparr>digits := newR\<rparr>) \<lparr>sign = 0, digits = prod\<rparr>
           in divide_loop i a b (quot[i := q_digit mod 256]) temp))"

text \<open>
  \<open>tritjs_divide_big\<close>: a divisor whose cells are all 0 is error 3. The remainder
  starts as a copy of the dividend's digits and the quotient as \<open>a->len\<close> zero cells;
  after the loop both are stripped, the quotient's sign is 1 exactly when the operands'
  signs differ, and the remainder takes the dividend's sign. \<open>None\<close>: the call does not
  return.
\<close>

definition tritjs_divide_big ::
  "T81BigInt \<Rightarrow> T81BigInt \<Rightarrow> (TritError + T81BigInt \<times> T81BigInt) option" where
  "tritjs_divide_big a b =
     (if list_all (\<lambda>d. d = 0) (digits b) then Some (Inl DivZero)
      else
        (case divide_loop (length (digits a)) (digits a) (digits b)
                (allocate_digits (length (digits a))) \<lparr>sign = 0, digits = digits a\<rparr> of
           None \<Rightarrow> None
         | Some (quot, rem) \<Rightarrow>
             Some (Inr (\<lparr>sign = (if sign a \<noteq> sign b then 1 else 0), digits = strip_high quot\<rparr>,
                        \<lparr>sign = sign a, digits = strip_high (digits rem)\<rparr>))))"

section \<open>Ternary logical operations\<close>

text \<open>The four helpers on \<open>int\<close>; the operands of \<open>%\<close> are never negative here.\<close>

definition ternary_and :: "int \<Rightarrow> int \<Rightarrow> int" where
  "ternary_and a b = (if a < b then a else b)"

definition ternary_or :: "int \<Rightarrow> int \<Rightarrow> int" where
  "ternary_or a b = (if a > b then a else b)"

definition ternary_not :: "int \<Rightarrow> int" where
  "ternary_not a = 2 - a"

definition ternary_xor :: "int \<Rightarrow> int \<Rightarrow> int" where
  "ternary_xor a b = (a + b) mod 3"

text \<open>\<open>i < A->len ? A->digits[i] : 0\<close>.\<close>

definition cell_or_0 :: "T81BigInt \<Rightarrow> nat \<Rightarrow> int" where
  "cell_or_0 A i = (if i < length (digits A) then int (digits A ! i) else 0)"

text \<open>
  The four operations fill \<open>max(A->len, B->len)\<close> cells (\<open>A->len\<close> for the negation),
  one call of the helper per cell, and set the sign to 0. None of them ends with the
  stripping loop.
\<close>

definition tritjs_logical_and :: "T81BigInt \<Rightarrow> T81BigInt \<Rightarrow> T81BigInt" where
  "tritjs_logical_and A B =
     (let len = max (length (digits A)) (length (digits B))
      in \<lparr>sign = 0,
          digits = map (\<lambda>i. to_uchar (ternary_and (cell_or_0 A i) (cell_or_0 B i))) [0..<len]\<rparr>)"

definition tritjs_logical_or :: "T81BigInt \<Rightarrow> T81BigInt \<Rightarrow> T81BigInt" where
  "tritjs_logical_or A B =
     (let len = max (length (digits A)) (length (digits B))
      in \<lparr>sign = 0,
          digits = map (\<lambda>i. to_uchar (ternary_or (cell_or_0 A i) (cell_or_0 B i))) [0..<len]\<rparr>)"

definition tritjs_logical_not :: "T81BigInt \<Rightarrow> T81BigInt" where
  "tritjs_logical_not A =
     \<lparr>sign = 0,
      digits = map (\<lambda>i. to_uchar (ternary_not (int (digits A ! i)))) [0..<length (digits A)]\<rparr>"

definition tritjs_logical_xor :: "T81BigInt \<Rightarrow> T81BigInt \<Rightarrow> T81BigInt" where
  "tritjs_logical_xor A B =
     (let len = max (length (digits A)) (length (digits B))
      in \<lparr>sign = 0,
          digits = map (\<lambda>i. to_uchar (ternary_xor (cell_or_0 A i) (cell_or_0 B i))) [0..<len]\<rparr>)"

section \<open>tritsys-1.0: the discrete opcode surface\<close>

text \<open>
  The \<open>T81BigInt\<close> of tritsys-1.0.c holds one balanced trit per \<open>unsigned char\<close> cell
  (the trit -1 is stored as 255 and read back through \<open>(signed char)\<close>) and a sign that
  is \<open>TERNARY_NEGATIVE = -1\<close>, \<open>TERNARY_ZERO = 0\<close> or \<open>TERNARY_POSITIVE = 1\<close>. The C
  \<open>int\<close> is modelled by \<open>int\<close>: the opcodes are small and nothing here overflows.
\<close>

record T81BigInt_ts =
  sign_ts :: int
  digits_ts :: "nat list"

definition to_schar :: "nat \<Rightarrow> int" where
  "to_schar c = (if c < 128 then int c else int c - 256)"

text \<open>C's \<open>%\<close> truncates towards zero: the remainder has the dividend's sign.\<close>

definition c_rem :: "int \<Rightarrow> int \<Rightarrow> int" where
  "c_rem a b = sgn a * (\<bar>a\<bar> mod \<bar>b\<bar>)"

text \<open>\<open>while (temp > 0) { len++; temp /= 3; }\<close>\<close>

function trit_count :: "int \<Rightarrow> nat \<Rightarrow> nat" where
  "trit_count temp len = (if temp > 0 then trit_count (temp div 3) (len + 1) else len)"
  by pat_completeness auto
termination
  by (relation "measure (\<lambda>(temp, len). nat temp)") auto

declare trit_count.simps [simp del]

text \<open>
  \<open>for (i = 0; abs_num > 0 && i < len; i++) { rem = abs_num % 3;
  digits[i] = (rem == 2) ? -1 : rem; abs_num = (rem == 2) ? abs_num / 3 + 1 : abs_num / 3; }\<close>
\<close>

function from_int_loop :: "nat \<Rightarrow> nat \<Rightarrow> int \<Rightarrow> nat list \<Rightarrow> nat list" where
  "from_int_loop i len abs_num ds =
     (if abs_num > 0 \<and> i < len
      then (let rem = abs_num mod 3
            in from_int_loop (i + 1) len
                 (if rem = 2 then abs_num div 3 + 1 else abs_num div 3)
                 (ds[i := to_uchar (if rem = 2 then - 1 else rem)]))
      else ds)"
  by pat_completeness auto
termination
  by (relation "measure (\<lambda>(i, len, abs_num, ds). len - i)") auto

declare from_int_loop.simps [simp del]

definition t81bigint_from_int :: "int \<Rightarrow> T81BigInt_ts" where
  "t81bigint_from_int num =
     (if num = 0 then \<lparr>sign_ts = 0, digits_ts = [0]\<rparr>
      else
        (let abs_num = \<bar>num\<bar>;
             len = trit_count abs_num 0
         in \<lparr>sign_ts = (if num < 0 then - 1 else 1),
             digits_ts = from_int_loop 0 len abs_num (replicate len 0)\<rparr>))"

text \<open>\<open>while (start > 0 && num->digits[start - 1] == 0) start--;\<close>\<close>

fun start_loop :: "nat list \<Rightarrow> nat \<Rightarrow> nat" where
  "start_loop ds 0 = 0"
| "start_loop ds (Suc k) = (if ds ! k = 0 then start_loop ds k else Suc k)"

text \<open>
  \<open>t81bigint_to_string\<close>: \<open>"0"\<close> for the sign 0 and for all-zero cells; otherwise a
  \<open>'-'\<close> for a negative sign, then the cells from the top non-zero one down, each
  printed as \<open>'1'\<close>, \<open>'T'\<close> (for -1) or \<open>'0'\<close>.
\<close>

definition trit_char :: "nat \<Rightarrow> char" where
  "trit_char c =
     (let digit = to_schar c in
      if digit = 1 then CHR ''1'' else if digit = - 1 then CHR ''T'' else CHR ''0'')"

definition t81bigint_to_string :: "T81BigInt_ts \<Rightarrow> string" where
  "t81bigint_to_string num =
     (if sign_ts num = 0 then ''0''
      else
        (let start = start_loop (digits_ts num) (length (digits_ts num)) in
         if start = 0 then ''0''
         else (if sign_ts num = - 1 then ''-'' else [])
              @ map (\<lambda>j. trit_char (digits_ts num ! j)) (rev [0..<start])))"

text \<open>\<open>sprintf(buffer, "%d", x)\<close>: the decimal text of an \<open>int\<close>.\<close>

function dec_text :: "nat \<Rightarrow> string" where
  "dec_text n = (if n < 10 then [char_of (48 + n)] else dec_text (n div 10) @ [char_of (48 + n mod 10)])"
  by pat_completeness auto
termination
  by (relation "measure id") auto

declare dec_text.simps [simp del]

definition sprintf_d :: "int \<Rightarrow> string" where
  "sprintf_d x = (if x < 0 then CHR ''-'' # dec_text (nat (- x)) else dec_text (nat x))"

text \<open>The value a character adds to the checksum: \<open>c == 'T' ? -1 : c - '0'\<close>.\<close>

definition trit_of_char :: "char \<Rightarrow> int" where
  "trit_of_char c = (if c = CHR ''T'' then - 1 else int (of_char c :: nat) - 48)"

text \<open>
  The checksum loop of \<open>discrete_opcode_encode\<close>:
  \<open>for (i = 0; buf[i] && buf[i] != '-'; i++) checksum = (checksum + \<dots>) % 9;\<close>
\<close>

fun encode_checksum :: "string \<Rightarrow> int \<Rightarrow> int" where
  "encode_checksum [] checksum = checksum"
| "encode_checksum (c # s) checksum =
     (if c = CHR ''-'' then checksum
      else encode_checksum s (c_rem (checksum + trit_of_char c) 9))"

definition discrete_opcode_encode :: "int \<Rightarrow> string" where
  "discrete_opcode_encode opcode =
     (let encoded_buffer = t81bigint_to_string (t81bigint_from_int opcode);
          checksum = encode_checksum encoded_buffer 0
      in encoded_buffer @ sprintf_d checksum)"

text \<open>
  The loop of \<open>discrete_opcode_validate\<close> over all characters but the last: a character
  other than \<open>'T'\<close>, \<open>'-'\<close>, \<open>'0'\<close>, \<open>'1'\<close>, \<open>'2'\<close> ends it with \<open>return 0\<close> (here
  \<open>None\<close>).
\<close>

fun validate_sum :: "string \<Rightarrow> int \<Rightarrow> int option" where
  "validate_sum [] computed = Some computed"
| "validate_sum (c # s) computed =
     (if c \<noteq> CHR ''T'' \<and> c \<noteq> CHR ''-'' \<and> ((of_char c :: nat) < 48 \<or> (of_char c :: nat) > 50)
      then None
      else validate_sum s (c_rem (computed + trit_of_char c) 9))"

definition isdigit :: "char \<Rightarrow> bool" where
  "isdigit c \<longleftrightarrow> 48 \<le> (of_char c :: nat) \<and> (of_char c :: nat) \<le> 57"

text \<open>\<open>discrete_opcode_validate\<close>; the C result 1 is \<open>True\<close> and 0 is \<open>False\<close>.\<close>

definition discrete_opcode_validate :: "string \<Rightarrow> bool" where
  "discrete_opcode_validate encoded_opcode =
     (let len = length encoded_opcode in
      if len < 2 \<or> \<not> isdigit (encoded_opcode ! (len - 1)) then False
      else
        (case validate_sum (take (len - 1) encoded_opcode) 0 of
           None \<Rightarrow> False
         | Some computed \<Rightarrow>
             computed = int (of_char (encoded_opcode ! (len - 1)) :: nat) - 48))"

text \<open>The opcodes the header defines (\<open>TADD\<close> to \<open>TGCD\<close>).\<close>

definition opcode_set :: "int list" where
  "opcode_set = [1, 2, 3, 4, 5, 6, 8, 9, 10, 11, 12]"




section \<open>Canonical form\<close>

text \<open>
  The canonical form of the specification, in the encoding of this source (sign 0 for
  a number that is not negative, 1 for a negative one): at least one cell, every cell
  in 0..80, no zero cell on top of a longer number, and no sign on zero.
\<close>

definition canonical :: "T81BigInt \<Rightarrow> bool" where
  "canonical x \<longleftrightarrow>
     digits x \<noteq> [] \<and> list_all (\<lambda>d. d \<le> 80) (digits x)
     \<and> (length (digits x) = 1 \<or> last (digits x) \<noteq> 0)
     \<and> (sign x = 0 \<or> (sign x = 1 \<and> digits x \<noteq> [0]))"

text \<open>The number a \<open>T81BigInt\<close> stands for.\<close>

definition bigint_val :: "T81BigInt \<Rightarrow> int" where
  "bigint_val x = (if sign x \<noteq> 0 then - int (limbs_val (digits x)) else int (limbs_val (digits x)))"

section \<open>Power: the zero exponent\<close>

text \<open>
  C10. For every base, zero included, and every state of the cache,
  \<open>tritjs_power_big\<close> with the exponent zero (one zero cell, sign 0) succeeds, leaves
  the cache as it was and returns one: a single cell 1 with sign 0. In particular zero
  to the power zero is one.
\<close>

theorem power_zero_exponent:
  "tritjs_power_big cache base \<lparr>sign = 0, digits = [0]\<rparr>
     = (cache, Inr \<lparr>sign = 0, digits = [1]\<rparr>)"
  by (simp add: tritjs_power_big_def is_small_value_def to_small_int_def)

section \<open>Balanced-ternary parsing\<close>


















text \<open>Two texts of the accepted alphabet: \<open>"+-"\<close> is read as the ternary \<open>"20"\<close>, 6.\<close>

lemma parse_balanced_examples:
  "parse_balanced_trit_string ''+-'' = Inr \<lparr>sign = 0, digits = [6]\<rparr>"
  "parse_balanced_trit_string ''-0+'' = Inr \<lparr>sign = 0, digits = [5]\<rparr>"
  by code_simp+

section \<open>Evaluation rules\<close>

text \<open>
  The loops above, one turn at a time and without \<open>let\<close>: with these rules the
  simplifier runs a loop on concrete cells, evaluating the arguments of each turn
  before the next one.
\<close>

lemma list_update_numeral: "(x # xs)[numeral k := y] = x # xs[pred_numeral k := y]"
  by (simp add: numeral_eq_Suc)

lemma replicate_numeral_eval: "replicate (numeral k) x = x # replicate (pred_numeral k) x"
  by (simp add: numeral_eq_Suc)

lemma naive_inner_step:
  "j < blen \<Longrightarrow> naive_inner A B i blen j out carry =
     naive_inner A B i blen (Suc j) (out[i + j := (out ! (i + j) + A ! i * B ! j + carry) mod 81])
       ((out ! (i + j) + A ! i * B ! j + carry) div 81)"
  by (subst naive_inner.simps) (simp add: Let_def)

lemma naive_inner_stop: "\<not> j < blen \<Longrightarrow> naive_inner A B i blen j out carry = (out, carry)"
  by (subst naive_inner.simps) simp

lemma naive_outer_step:
  "i < alen \<Longrightarrow> naive_outer A alen B blen i out =
     naive_outer A alen B blen (Suc i)
       ((fst (naive_inner A B i blen 0 out 0))
          [i + blen := (fst (naive_inner A B i blen 0 out 0) ! (i + blen) + snd (naive_inner A B i blen 0 out 0)) mod 256])"
  by (subst naive_outer.simps) (simp add: Let_def split: prod.splits)

lemma naive_outer_stop: "\<not> i < alen \<Longrightarrow> naive_outer A alen B blen i out = out"
  by (subst naive_outer.simps) simp

lemma half_sum_loop_step:
  "i < half \<Longrightarrow> half_sum_loop sumA A0 half r i =
     half_sum_loop
       (if (sumA ! i + A0 ! i) div 81 \<noteq> 0 \<and> i + 1 < r
        then (sumA[i := (sumA ! i + A0 ! i) mod 81])
               [i + 1 := ((sumA[i := (sumA ! i + A0 ! i) mod 81]) ! (i + 1) + (sumA ! i + A0 ! i) div 81) mod 256]
        else sumA[i := (sumA ! i + A0 ! i) mod 81])
       A0 half r (Suc i)"
  by (subst half_sum_loop.simps) (simp add: Let_def)

lemma half_sum_loop_stop: "\<not> i < half \<Longrightarrow> half_sum_loop sumA A0 half r i = sumA"
  by (subst half_sum_loop.simps) simp

lemma sub_loop_borrow:
  "i < len \<Longrightarrow> int (out ! i) - int (src ! i) - borrow < 0 \<Longrightarrow>
   sub_loop out src len i borrow =
     sub_loop (out[i := to_uchar (int (out ! i) - int (src ! i) - borrow + 81)]) src len (Suc i) 1"
  by (subst sub_loop.simps) (simp add: Let_def)

lemma sub_loop_plain:
  "i < len \<Longrightarrow> \<not> int (out ! i) - int (src ! i) - borrow < 0 \<Longrightarrow>
   sub_loop out src len i borrow =
     sub_loop (out[i := to_uchar (int (out ! i) - int (src ! i) - borrow)]) src len (Suc i) 0"
  by (subst sub_loop.simps) (simp add: Let_def)

lemma sub_loop_stop: "\<not> i < len \<Longrightarrow> sub_loop out src len i borrow = out"
  by (subst sub_loop.simps) simp

lemma add_shifted_loop_step:
  "i < slen \<Longrightarrow> i + shift < length dest \<Longrightarrow>
   add_shifted_loop dest src slen shift i carry =
     add_shifted_loop (dest[i + shift := (dest ! (i + shift) + src ! i + carry) mod 81]) src slen shift
       (Suc i) ((dest ! (i + shift) + src ! i + carry) div 81)"
  by (subst add_shifted_loop.simps) (simp add: Let_def)

lemma add_shifted_loop_break:
  "i < slen \<Longrightarrow> \<not> i + shift < length dest \<Longrightarrow>
   add_shifted_loop dest src slen shift i carry = (dest, carry)"
  by (subst add_shifted_loop.simps) (simp add: Let_def)

lemma add_shifted_loop_stop:
  "\<not> i < slen \<Longrightarrow> add_shifted_loop dest src slen shift i carry = (dest, carry)"
  by (subst add_shifted_loop.simps) simp

lemma add_shifted_tail_step:
  "carry \<noteq> 0 \<Longrightarrow> idx < length dest \<Longrightarrow>
   add_shifted_tail dest carry idx =
     add_shifted_tail (dest[idx := (dest ! idx + carry) mod 81]) ((dest ! idx + carry) div 81) (Suc idx)"
  by (subst add_shifted_tail.simps) (simp add: Let_def)

lemma add_shifted_tail_stop:
  "carry = 0 \<or> \<not> idx < length dest \<Longrightarrow> add_shifted_tail dest carry idx = dest"
  by (subst add_shifted_tail.simps) auto

lemma add_shifted_eval:
  "add_shifted dest src slen shift =
     add_shifted_tail (fst (add_shifted_loop dest src slen shift 0 0))
       (snd (add_shifted_loop dest src slen shift 0 0)) (slen + shift)"
  by (simp add: add_shifted_def split: prod.splits)

lemma karatsuba_small: "n \<le> 16 \<Longrightarrow> karatsuba A B n = naive_mul A n B n"
  by (subst karatsuba.simps) simp

lemma karatsuba_big:
  "\<not> n \<le> 16 \<Longrightarrow> karatsuba A B n =
     add_shifted
       (add_shifted
          (add_shifted (replicate (2 * n) 0)
             (karatsuba A B (n div 2) @ replicate (2 * n - 2 * (n div 2)) 0) (2 * n) 0)
          (sub_inplace
             (sub_inplace
                (karatsuba (half_sum (drop (n div 2) A) A (n div 2) (n - n div 2))
                   (half_sum (drop (n div 2) B) B (n div 2) (n - n div 2)) (n - n div 2)
                 @ replicate (2 * n - 2 * (n - n div 2)) 0)
                (karatsuba A B (n div 2) @ replicate (2 * n - 2 * (n div 2)) 0) (2 * n))
             (karatsuba (drop (n div 2) A) (drop (n div 2) B) (n - n div 2)
              @ replicate (2 * n - 2 * (n - n div 2)) 0) (2 * n))
          (2 * n) (n div 2))
       (karatsuba (drop (n div 2) A) (drop (n div 2) B) (n - n div 2)
        @ replicate (2 * n - 2 * (n - n div 2)) 0)
       (2 * n) (2 * (n div 2))"
  by (subst karatsuba.simps) (simp add: Let_def)

lemmas eval_rules =
  replicate_numeral_eval list_update_numeral
  naive_inner_step naive_inner_stop naive_outer_step naive_outer_stop naive_mul_def
  half_sum_loop_step half_sum_loop_stop half_sum_def
  sub_loop_borrow sub_loop_plain sub_loop_stop sub_inplace_def to_uchar_def
  add_shifted_loop_step add_shifted_loop_break add_shifted_loop_stop
  add_shifted_tail_step add_shifted_tail_stop add_shifted_eval
  karatsuba_small karatsuba_big

text \<open>
  The stores into \<open>unsigned char\<close> cells wrap: a source cell more than 81 above the
  destination leaves a negative difference after the one correction by 81. On cells
  within 0..80 nothing wraps.
\<close>

lemma unsigned_char_stores:
  "sub_inplace [0] [83] 1 = [254]"
  "tritjs_add_big \<lparr>sign = 0, digits = [0, 1]\<rparr> \<lparr>sign = 1, digits = [82]\<rparr> = \<lparr>sign = 0, digits = [255]\<rparr>"
  "tritjs_add_big \<lparr>sign = 0, digits = [5, 1]\<rparr> \<lparr>sign = 1, digits = [7]\<rparr> = \<lparr>sign = 0, digits = [79]\<rparr>"
  by code_simp+

section \<open>Trit-wise logic\<close>

text \<open>
  The view of the specification: every cell expanded into its four trits, least
  significant first.
\<close>

definition limb_trits :: "nat \<Rightarrow> nat list" where
  "limb_trits d = [d mod 3, d div 3 mod 3, d div 9 mod 3, d div 27 mod 3]"

definition trit_view :: "nat list \<Rightarrow> nat list" where
  "trit_view ds = concat (map limb_trits ds)"

text \<open>
  The four operations in the specification's words: over aligned trit positions, the
  shorter operand padded with 0 trits, each trit of the AND the minimum of the two, of
  the OR the maximum, of the NOT 2 minus the trit, of the XOR the sum modulo 3.
\<close>

definition pad_trit :: "nat list \<Rightarrow> nat \<Rightarrow> nat" where
  "pad_trit ts i = (if i < length ts then ts ! i else 0)"

definition spec_trit_and :: "nat list \<Rightarrow> nat list \<Rightarrow> nat list" where
  "spec_trit_and ta tb = map (\<lambda>i. min (pad_trit ta i) (pad_trit tb i)) [0..<max (length ta) (length tb)]"

definition spec_trit_or :: "nat list \<Rightarrow> nat list \<Rightarrow> nat list" where
  "spec_trit_or ta tb = map (\<lambda>i. max (pad_trit ta i) (pad_trit tb i)) [0..<max (length ta) (length tb)]"

definition spec_trit_not :: "nat list \<Rightarrow> nat list" where
  "spec_trit_not ta = map (\<lambda>t. 2 - t) ta"

definition spec_trit_xor :: "nat list \<Rightarrow> nat list \<Rightarrow> nat list" where
  "spec_trit_xor ta tb = map (\<lambda>i. (pad_trit ta i + pad_trit tb i) mod 3) [0..<max (length ta) (length tb)]"

text \<open>
  C7, at the failing inputs. The helpers \<open>ternary_and\<close>, \<open>ternary_or\<close>, \<open>ternary_not\<close>
  and \<open>ternary_xor\<close> are the trit formulas, and the four operations apply them to whole
  base-81 cells. The cell 3 is the trits 0, 1, 0, 0 and the cell 2 the trits 2, 0, 0, 0:
  their trit-wise AND is 0 and their trit-wise OR is 2, 1, 0, 0 (the cell 5), while the
  code returns the cells 2 and 3. The cell 4 is the trits 1, 1, 0, 0, so 4 XOR 4 is
  2, 2, 0, 0 (the cell 8) trit-wise, while the code returns the cell \<open>(4 + 4) mod 3 = 2\<close>.
  The trit-wise NOT of the cell 5 is 0, 1, 2, 2 (the cell 75), while the code stores
  \<open>2 - 5\<close> into an \<open>unsigned char\<close>, the cell 253.
\<close>

theorem logical_ops_not_tritwise:
  "trit_view (digits (tritjs_logical_and \<lparr>sign = 0, digits = [3]\<rparr> \<lparr>sign = 0, digits = [2]\<rparr>))
     = [2, 0, 0, 0]
   \<and> spec_trit_and (trit_view [3]) (trit_view [2]) = [0, 0, 0, 0]
   \<and> trit_view (digits (tritjs_logical_or \<lparr>sign = 0, digits = [3]\<rparr> \<lparr>sign = 0, digits = [2]\<rparr>))
     = [0, 1, 0, 0]
   \<and> spec_trit_or (trit_view [3]) (trit_view [2]) = [2, 1, 0, 0]
   \<and> trit_view (digits (tritjs_logical_xor \<lparr>sign = 0, digits = [4]\<rparr> \<lparr>sign = 0, digits = [4]\<rparr>))
     = [2, 0, 0, 0]
   \<and> spec_trit_xor (trit_view [4]) (trit_view [4]) = [2, 2, 0, 0]
   \<and> digits (tritjs_logical_not \<lparr>sign = 0, digits = [5]\<rparr>) = [253]
   \<and> trit_view [5] = [2, 1, 0, 0]
   \<and> spec_trit_not (trit_view [5]) = [0, 1, 2, 2]
   \<and> limbs_val [75] = 75 \<and> trit_view [75] = [0, 1, 2, 2]"
  by code_simp

section \<open>The value of digit lists\<close>

lemma limbs_val_append: "limbs_val (xs @ ys) = limbs_val xs + 81 ^ length xs * limbs_val ys"
  by (induction xs) (simp_all add: algebra_simps)

lemma limbs_val_replicate_0: "limbs_val (replicate n 0) = 0"
  by (induction n) simp_all

lemma limbs_val_update:
  "i < length xs \<Longrightarrow> limbs_val (xs[i := v]) + xs ! i * 81 ^ i = limbs_val xs + v * 81 ^ i"
proof (induction xs arbitrary: i)
  case Nil
  then show ?case by simp
next
  case (Cons x xs)
  show ?case
  proof (cases i)
    case 0
    then show ?thesis by simp
  next
    case (Suc k)
    with Cons.prems have "k < length xs" by simp
    from Cons.IH [OF this] have "81 * (limbs_val (xs[k := v]) + xs ! k * 81 ^ k) = 81 * (limbs_val xs + v * 81 ^ k)"
      by simp
    with Suc show ?thesis by (simp add: algebra_simps)
  qed
qed

lemma limbs_val_take_Suc:
  "j < length B \<Longrightarrow> limbs_val (take (Suc j) B) = limbs_val (take j B) + B ! j * 81 ^ j"
  by (simp add: take_Suc_conv_app_nth limbs_val_append)

lemma limbs_val_bound:
  "\<forall>k < length xs. xs ! k \<le> 80 \<Longrightarrow> limbs_val xs < 81 ^ length xs"
proof (induction xs)
  case Nil
  then show ?case by simp
next
  case (Cons x xs)
  from Cons.prems have x: "x \<le> 80" by auto
  from Cons.prems have "\<forall>k < length xs. xs ! k \<le> 80" by auto
  from Cons.IH [OF this] have "limbs_val xs + 1 \<le> 81 ^ length xs" by simp
  then have "81 * (limbs_val xs + 1) \<le> 81 * 81 ^ length xs" by (rule mult_le_mono2)
  with x show ?case by simp
qed

section \<open>Schoolbook multiplication is exact\<close>

lemma naive_inner_val:
  assumes "naive_inner A B i blen j out carry = (out', carry')"
    and "j \<le> blen" and "blen \<le> length B" and "i + blen \<le> length out"
    and "\<forall>k < length out. out ! k \<le> 80" and "carry \<le> 80"
    and "A ! i \<le> 80" and "\<forall>k < blen. B ! k \<le> 80"
  shows "limbs_val out' + carry' * 81 ^ (i + blen) + A ! i * limbs_val (take j B) * 81 ^ i
           = limbs_val out + carry * 81 ^ (i + j) + A ! i * limbs_val (take blen B) * 81 ^ i
         \<and> length out' = length out \<and> (\<forall>k < length out. out' ! k \<le> 80) \<and> carry' \<le> 80
         \<and> (\<forall>k. i + blen \<le> k \<longrightarrow> out' ! k = out ! k)"
  using assms
proof (induction A B i blen j out carry rule: naive_inner.induct)
  case (1 A B i blen j out carry)
  show ?case
  proof (cases "j < blen")
    case False
    with "1.prems" have "j = blen" and "out' = out" and "carry' = carry"
      by (simp_all add: naive_inner.simps [of A B i blen j])
    then show ?thesis using "1.prems" by simp
  next
    case True
    define pos where "pos = i + j"
    define val where "val = out ! pos + A ! i * B ! j + carry"
    define out1 where "out1 = out[pos := val mod 81]"
    define carry1 where "carry1 = val div 81"
    from True "1.prems" have pos: "pos < length out" by (simp add: pos_def)
    from "1.prems" pos have o: "out ! pos \<le> 80" by simp
    from "1.prems" True have b: "B ! j \<le> 80" by simp
    have "A ! i * B ! j \<le> 80 * 80"
      using "1.prems"(7) b by (rule mult_le_mono)
    with o "1.prems"(6) have valb: "val \<le> 6560" by (simp add: val_def)
    then have c1: "carry1 \<le> 80" by (simp add: carry1_def)
    have cells1: "\<forall>k < length out1. out1 ! k \<le> 80"
    proof (intro allI impI)
      fix k assume "k < length out1"
      then have k: "k < length out" by (simp add: out1_def)
      have "val mod 81 \<le> 80" by simp
      with k "1.prems"(5) show "out1 ! k \<le> 80"
        by (cases "k = pos") (simp_all add: out1_def)
    qed
    have rec: "naive_inner A B i blen (j + 1) out1 carry1 = (out', carry')"
      using "1.prems"(1) True
      by (simp add: naive_inner.simps [of A B i blen j] Let_def pos_def val_def out1_def carry1_def)
    have ih: "limbs_val out' + carry' * 81 ^ (i + blen) + A ! i * limbs_val (take (j + 1) B) * 81 ^ i
           = limbs_val out1 + carry1 * 81 ^ (i + (j + 1)) + A ! i * limbs_val (take blen B) * 81 ^ i
         \<and> length out' = length out1 \<and> (\<forall>k < length out1. out' ! k \<le> 80) \<and> carry' \<le> 80
         \<and> (\<forall>k. i + blen \<le> k \<longrightarrow> out' ! k = out1 ! k)"
      unfolding out1_def carry1_def val_def pos_def
    proof (rule "1.IH" [OF True refl refl])
      show "naive_inner A B i blen (j + 1)
              (out[i + j := (out ! (i + j) + A ! i * B ! j + carry) mod 81])
              ((out ! (i + j) + A ! i * B ! j + carry) div 81) = (out', carry')"
        using rec by (simp add: out1_def carry1_def val_def pos_def)
      show "j + 1 \<le> blen" using True by simp
      show "blen \<le> length B" by (rule "1.prems"(3))
      show "i + blen \<le> length (out[i + j := (out ! (i + j) + A ! i * B ! j + carry) mod 81])"
        using "1.prems"(4) by simp
      show "\<forall>k < length (out[i + j := (out ! (i + j) + A ! i * B ! j + carry) mod 81]).
              out[i + j := (out ! (i + j) + A ! i * B ! j + carry) mod 81] ! k \<le> 80"
        using cells1 by (simp add: out1_def carry1_def val_def pos_def)
      show "(out ! (i + j) + A ! i * B ! j + carry) div 81 \<le> 80"
        using c1 by (simp add: out1_def carry1_def val_def pos_def)
      show "A ! i \<le> 80" by (rule "1.prems"(7))
      show "\<forall>k < blen. B ! k \<le> 80" by (rule "1.prems"(8))
    qed
    define P where "P = (81::nat) ^ (i + j)"
    define a where "a = A ! i"
    have upd: "limbs_val out1 + out ! pos * P = limbs_val out + (val mod 81) * P"
      unfolding out1_def P_def pos_def [symmetric] by (rule limbs_val_update [OF pos])
    from True "1.prems"(3) have "j < length B" by simp
    then have tk: "limbs_val (take (j + 1) B) = limbs_val (take j B) + B ! j * 81 ^ j"
      by (simp add: limbs_val_take_Suc)
    have pw: "(81::nat) ^ (i + (j + 1)) = 81 * P" by (simp add: P_def)
    have pj: "(81::nat) ^ j * 81 ^ i = P" by (simp add: P_def power_add)
    have vd: "val = 81 * carry1 + val mod 81" by (simp add: carry1_def)
    from ih have e1: "limbs_val out' + carry' * 81 ^ (i + blen) + a * limbs_val (take j B) * 81 ^ i
                       + a * B ! j * P
           = limbs_val out1 + carry1 * (81 * P) + a * limbs_val (take blen B) * 81 ^ i"
      unfolding tk pw a_def [symmetric]
      by (simp add: algebra_simps pj [symmetric])
    have "carry1 * (81 * P) + (val mod 81) * P = (81 * carry1 + val mod 81) * P"
      by (simp add: algebra_simps)
    also have "\<dots> = val * P"
      using vd by simp
    also have "\<dots> = out ! pos * P + a * B ! j * P + carry * P"
      by (simp add: val_def a_def algebra_simps)
    finally have e2: "carry1 * (81 * P) + (val mod 81) * P = out ! pos * P + a * B ! j * P + carry * P" .
    from e1 upd e2
    have "limbs_val out' + carry' * 81 ^ (i + blen) + a * limbs_val (take j B) * 81 ^ i
           = limbs_val out + carry * P + a * limbs_val (take blen B) * 81 ^ i"
      by linarith
    moreover have "\<forall>k. i + blen \<le> k \<longrightarrow> out' ! k = out ! k"
    proof (intro allI impI)
      fix k assume k: "i + blen \<le> k"
      with True have "k \<noteq> pos" by (simp add: pos_def)
      with ih k show "out' ! k = out ! k" by (simp add: out1_def)
    qed
    ultimately show ?thesis
      using ih by (simp add: P_def a_def out1_def)
  qed
qed


lemma naive_outer_val:
  assumes "i \<le> alen" and "alen \<le> length A" and "blen \<le> length B"
    and "length out = alen + blen"
    and "\<forall>k < length out. out ! k \<le> 80"
    and "\<forall>k. i + blen \<le> k \<and> k < length out \<longrightarrow> out ! k = 0"
    and "\<forall>k < alen. A ! k \<le> 80" and "\<forall>k < blen. B ! k \<le> 80"
  shows "limbs_val (naive_outer A alen B blen i out) + limbs_val (take i A) * limbs_val (take blen B)
           = limbs_val out + limbs_val (take alen A) * limbs_val (take blen B)
         \<and> length (naive_outer A alen B blen i out) = alen + blen
         \<and> (\<forall>k < alen + blen. naive_outer A alen B blen i out ! k \<le> 80)"
  using assms
proof (induction A alen B blen i out rule: naive_outer.induct)
  case (1 A alen B blen i out)
  show ?case
  proof (cases "i < alen")
    case False
    with "1.prems" have "i = alen" by simp
    with "1.prems" show ?thesis
      by (simp add: naive_outer.simps [of A alen B blen alen])
  next
    case True
    obtain out1 carry where inner: "naive_inner A B i blen 0 out 0 = (out1, carry)"
      by (cases "naive_inner A B i blen 0 out 0")
    define out2 where "out2 = out1[i + blen := (out1 ! (i + blen) + carry) mod 256]"
    have top: "i + blen < length out" using True "1.prems"(4) by simp
    have ai: "A ! i \<le> 80" using True "1.prems"(7) by simp
    have "limbs_val out1 + carry * 81 ^ (i + blen) + A ! i * limbs_val (take 0 B) * 81 ^ i
           = limbs_val out + 0 * 81 ^ (i + 0) + A ! i * limbs_val (take blen B) * 81 ^ i
         \<and> length out1 = length out \<and> (\<forall>k < length out. out1 ! k \<le> 80) \<and> carry \<le> 80
         \<and> (\<forall>k. i + blen \<le> k \<longrightarrow> out1 ! k = out ! k)"
    proof (rule naive_inner_val [OF inner])
      show "0 \<le> blen" by simp
      show "blen \<le> length B" by (rule "1.prems"(3))
      show "i + blen \<le> length out" using top by simp
      show "\<forall>k < length out. out ! k \<le> 80" by (rule "1.prems"(5))
      show "(0::nat) \<le> 80" by simp
      show "A ! i \<le> 80" by (rule ai)
      show "\<forall>k < blen. B ! k \<le> 80" by (rule "1.prems"(8))
    qed
    then have v1: "limbs_val out1 + carry * 81 ^ (i + blen)
                    = limbs_val out + A ! i * limbs_val (take blen B) * 81 ^ i"
      and len1: "length out1 = length out"
      and cells1: "\<forall>k < length out. out1 ! k \<le> 80"
      and c: "carry \<le> 80"
      and same: "\<forall>k. i + blen \<le> k \<longrightarrow> out1 ! k = out ! k"
      by simp_all
    from same top "1.prems"(6) have z: "out1 ! (i + blen) = 0" by simp
    with c have o2: "out2 = out1[i + blen := carry]" by (simp add: out2_def)
    from top len1 have top1: "i + blen < length out1" by simp
    from limbs_val_update [OF top1, of carry] z
    have v2: "limbs_val out2 = limbs_val out1 + carry * 81 ^ (i + blen)"
      by (simp add: o2)
    have len2: "length out2 = alen + blen" using len1 "1.prems"(4) by (simp add: o2)
    have cells2: "\<forall>k < length out2. out2 ! k \<le> 80"
    proof (intro allI impI)
      fix k assume "k < length out2"
      then have k: "k < length out" by (simp add: o2 len1)
      with cells1 c top1 show "out2 ! k \<le> 80"
        by (cases "k = i + blen") (simp_all add: o2)
    qed
    have zeros2: "\<forall>k. (i + 1) + blen \<le> k \<and> k < length out2 \<longrightarrow> out2 ! k = 0"
    proof (intro allI impI)
      fix k assume k: "(i + 1) + blen \<le> k \<and> k < length out2"
      then have "k \<noteq> i + blen" and "i + blen \<le> k" and "k < length out"
        by (simp_all add: o2 len1)
      with same "1.prems"(6) show "out2 ! k = 0" by (simp add: o2)
    qed
    have rec: "naive_outer A alen B blen i out = naive_outer A alen B blen (i + 1) out2"
      using True inner by (simp add: naive_outer.simps [of A alen B blen i] out2_def)
    have ih: "limbs_val (naive_outer A alen B blen (i + 1) out2)
                + limbs_val (take (i + 1) A) * limbs_val (take blen B)
               = limbs_val out2 + limbs_val (take alen A) * limbs_val (take blen B)
             \<and> length (naive_outer A alen B blen (i + 1) out2) = alen + blen
             \<and> (\<forall>k < alen + blen. naive_outer A alen B blen (i + 1) out2 ! k \<le> 80)"
      unfolding out2_def
    proof (rule "1.IH" [OF True inner [symmetric] refl])
      show "i + 1 \<le> alen" using True by simp
      show "alen \<le> length A" by (rule "1.prems"(2))
      show "blen \<le> length B" by (rule "1.prems"(3))
      show "length (out1[i + blen := (out1 ! (i + blen) + carry) mod 256]) = alen + blen"
        using len2 by (simp add: out2_def)
      show "\<forall>k < length (out1[i + blen := (out1 ! (i + blen) + carry) mod 256]).
              out1[i + blen := (out1 ! (i + blen) + carry) mod 256] ! k \<le> 80"
        using cells2 by (simp add: out2_def)
      show "\<forall>k. i + 1 + blen \<le> k \<and> k < length (out1[i + blen := (out1 ! (i + blen) + carry) mod 256])
              \<longrightarrow> out1[i + blen := (out1 ! (i + blen) + carry) mod 256] ! k = 0"
        using zeros2 by (simp add: out2_def)
      show "\<forall>k < alen. A ! k \<le> 80" by (rule "1.prems"(7))
      show "\<forall>k < blen. B ! k \<le> 80" by (rule "1.prems"(8))
    qed
    from True "1.prems"(2) have "i < length A" by simp
    then have tk: "limbs_val (take (i + 1) A) = limbs_val (take i A) + A ! i * 81 ^ i"
      by (simp add: limbs_val_take_Suc)
    define R where "R = limbs_val (naive_outer A alen B blen (i + 1) out2)"
    define pb where "pb = limbs_val (take blen B)"
    from ih have "R + (limbs_val (take i A) + A ! i * 81 ^ i) * pb
                    = limbs_val out2 + limbs_val (take alen A) * pb"
      unfolding tk R_def pb_def by simp
    then have "R + limbs_val (take i A) * pb + A ! i * pb * 81 ^ i
                    = limbs_val out2 + limbs_val (take alen A) * pb"
      by (simp add: algebra_simps)
    with v1 v2 have "R + limbs_val (take i A) * pb = limbs_val out + limbs_val (take alen A) * pb"
      unfolding pb_def by linarith
    with ih show ?thesis
      unfolding rec R_def pb_def by simp
  qed
qed

lemma naive_mul_val:
  assumes "n \<le> length A" and "n \<le> length B"
    and "\<forall>k < n. A ! k \<le> 80" and "\<forall>k < n. B ! k \<le> 80"
  shows "limbs_val (naive_mul A n B n) = limbs_val (take n A) * limbs_val (take n B)
         \<and> length (naive_mul A n B n) = n + n
         \<and> (\<forall>k < n + n. naive_mul A n B n ! k \<le> 80)"
proof -
  have "limbs_val (naive_outer A n B n 0 (replicate (n + n) 0))
           + limbs_val (take 0 A) * limbs_val (take n B)
          = limbs_val (replicate (n + n) 0) + limbs_val (take n A) * limbs_val (take n B)
        \<and> length (naive_outer A n B n 0 (replicate (n + n) 0)) = n + n
        \<and> (\<forall>k < n + n. naive_outer A n B n 0 (replicate (n + n) 0) ! k \<le> 80)"
    by (rule naive_outer_val) (use assms in simp_all)
  then show ?thesis
    by (simp add: naive_mul_def limbs_val_replicate_0)
qed

section \<open>The stripping loop\<close>

lemma strip_high_step:
  "length ds > 1 \<and> ds ! (length ds - 1) = 0 \<Longrightarrow> strip_high ds = strip_high (take (length ds - 1) ds)"
  by (subst strip_high.simps) simp

lemma strip_high_stop:
  "\<not> (length ds > 1 \<and> ds ! (length ds - 1) = 0) \<Longrightarrow> strip_high ds = ds"
  by (subst strip_high.simps) auto

lemma strip_high_val: "limbs_val (strip_high ds) = limbs_val ds"
proof (induction ds rule: strip_high.induct)
  case (1 ds)
  show ?case
  proof (cases "length ds > 1 \<and> ds ! (length ds - 1) = 0")
    case False
    show ?thesis unfolding strip_high_stop [OF False] ..
  next
    case True
    then have "ds \<noteq> []" by auto
    then have "ds = take (length ds - 1) ds @ [ds ! (length ds - 1)]"
      by (metis append_butlast_last_id butlast_conv_take last_conv_nth)
    with True have "ds = take (length ds - 1) ds @ [0]" by simp
    then have "limbs_val ds = limbs_val (take (length ds - 1) ds @ [0])" by simp
    also have "\<dots> = limbs_val (take (length ds - 1) ds)" by (simp add: limbs_val_append)
    finally have "limbs_val (take (length ds - 1) ds) = limbs_val ds" by simp
    with "1.IH" [OF True] show ?thesis
      unfolding strip_high_step [OF True] by simp
  qed
qed

lemma strip_high_set: "set (strip_high ds) \<subseteq> set ds"
proof (induction ds rule: strip_high.induct)
  case (1 ds)
  show ?case
  proof (cases "length ds > 1 \<and> ds ! (length ds - 1) = 0")
    case False
    show ?thesis unfolding strip_high_stop [OF False] ..
  next
    case True
    have "set (take (length ds - 1) ds) \<subseteq> set ds" by (rule set_take_subset)
    with "1.IH" [OF True] have "set (strip_high (take (length ds - 1) ds)) \<subseteq> set ds"
      by (rule subset_trans)
    then show ?thesis unfolding strip_high_step [OF True] .
  qed
qed

lemma strip_high_stripped:
  "ds \<noteq> [] \<Longrightarrow> strip_high ds \<noteq> [] \<and> (length (strip_high ds) = 1 \<or> last (strip_high ds) \<noteq> 0)"
proof (induction ds rule: strip_high.induct)
  case (1 ds)
  show ?case
  proof (cases "length ds > 1 \<and> ds ! (length ds - 1) = 0")
    case False
    from "1.prems" have "length ds = 1 \<or> length ds > 1" by (cases ds) auto
    with False "1.prems" have "length ds = 1 \<or> last ds \<noteq> 0"
      by (auto simp: last_conv_nth)
    with "1.prems" show ?thesis unfolding strip_high_stop [OF False] by simp
  next
    case True
    then have "take (length ds - 1) ds \<noteq> []" by auto
    from "1.IH" [OF True this] show ?thesis
      unfolding strip_high_step [OF True] .
  qed
qed

section \<open>Canonical numbers\<close>

lemma canonical_cells: "canonical x \<Longrightarrow> \<forall>k < length (digits x). digits x ! k \<le> 80"
  by (simp add: canonical_def list_all_length)

lemma canonical_val_zero:
  assumes "canonical x"
  shows "limbs_val (digits x) = 0 \<longleftrightarrow> digits x = [0]"
proof
  assume "digits x = [0]"
  then show "limbs_val (digits x) = 0" by simp
next
  assume "limbs_val (digits x) = 0"
  then have z: "list_all (\<lambda>d. d = 0) (digits x)" by (simp add: limbs_val_zero)
  from assms have ne: "digits x \<noteq> []" by (simp add: canonical_def)
  with z have "last (digits x) = 0" by (simp add: list_all_iff)
  with assms have "length (digits x) = 1" by (auto simp: canonical_def)
  then obtain d where d: "digits x = [d]" by (cases "digits x") auto
  with z show "digits x = [0]" by simp
qed

lemma limbs_val_top:
  assumes "ds \<noteq> []" and "last ds \<noteq> 0"
  shows "81 ^ (length ds - 1) \<le> limbs_val ds"
proof -
  from assms(1) have "ds = butlast ds @ [last ds]" by simp
  then have "limbs_val ds = limbs_val (butlast ds @ [last ds])" by simp
  also have "\<dots> = limbs_val (butlast ds) + 81 ^ (length ds - 1) * last ds"
    by (simp add: limbs_val_append)
  finally have top: "81 ^ (length ds - 1) * last ds \<le> limbs_val ds" by simp
  have "(81::nat) ^ (length ds - 1) = 81 ^ (length ds - 1) * 1" by simp
  also from assms(2) have "\<dots> \<le> 81 ^ (length ds - 1) * last ds"
    by (intro mult_le_mono2) simp
  also note top
  finally show ?thesis .
qed

lemma canonical_short:
  assumes "canonical x" and "limbs_val (digits x) < 81 ^ m" and "1 \<le> m"
  shows "length (digits x) \<le> m"
proof (rule ccontr)
  assume "\<not> length (digits x) \<le> m"
  then have len: "m < length (digits x)" by simp
  with assms(3) have "length (digits x) \<noteq> 1" by simp
  with assms(1) have "last (digits x) \<noteq> 0" and "digits x \<noteq> []"
    by (auto simp: canonical_def)
  then have "81 ^ (length (digits x) - 1) \<le> limbs_val (digits x)"
    by (intro limbs_val_top)
  moreover from len have "(81::nat) ^ m \<le> 81 ^ (length (digits x) - 1)"
    by (intro power_increasing) simp_all
  ultimately show False using assms(2) by linarith
qed

lemma limbs_val_inj_same_length:
  assumes "length xs = length ys"
    and "\<forall>k < length xs. xs ! k \<le> 80" and "\<forall>k < length ys. ys ! k \<le> 80"
    and "limbs_val xs = limbs_val ys"
  shows "xs = ys"
  using assms
proof (induction xs ys rule: list_induct2)
  case Nil
  then show ?case by simp
next
  case (Cons x xs y ys)
  from Cons.prems(1) have x: "x \<le> 80" and xs: "\<forall>k < length xs. xs ! k \<le> 80" by auto
  from Cons.prems(2) have y: "y \<le> 80" and ys: "\<forall>k < length ys. ys ! k \<le> 80" by auto
  from Cons.prems(3) have eq: "x + 81 * limbs_val xs = y + 81 * limbs_val ys" by simp
  then have "(x + 81 * limbs_val xs) mod 81 = (y + 81 * limbs_val ys) mod 81" by simp
  with x y have xy: "x = y" by simp
  with eq have "limbs_val xs = limbs_val ys" by simp
  from Cons.IH [OF xs ys this] xy show ?case by simp
qed

lemma canonical_digits_inj:
  assumes x: "canonical x" and y: "canonical y"
    and v: "limbs_val (digits x) = limbs_val (digits y)"
  shows "digits x = digits y"
proof -
  have le: "length (digits a) \<le> length (digits b)"
    if a: "canonical a" and b: "canonical b" and ab: "limbs_val (digits a) = limbs_val (digits b)"
    for a b
  proof -
    from b have "digits b \<noteq> []" by (simp add: canonical_def)
    then have "1 \<le> length (digits b)" by (cases "digits b") simp_all
    moreover have "limbs_val (digits a) < 81 ^ length (digits b)"
      unfolding ab by (rule limbs_val_bound [OF canonical_cells [OF b]])
    ultimately show ?thesis by (intro canonical_short [OF a])
  qed
  from le [OF x y v] le [OF y x v [symmetric]] have "length (digits x) = length (digits y)"
    by simp
  then show ?thesis
    by (rule limbs_val_inj_same_length [OF _ canonical_cells [OF x] canonical_cells [OF y] v])
qed

section \<open>Multiplication of small canonical numbers is exact\<close>

lemma limbs_val_pad: "limbs_val (ds @ replicate k 0) = limbs_val ds"
  by (simp add: limbs_val_append limbs_val_replicate_0)

lemma karatsuba_multiply_exact:
  assumes a: "canonical a" and b: "canonical b"
    and la: "length (digits a) \<le> 16" and lb: "length (digits b) \<le> 16"
  shows "canonical (t81bigint_karatsuba_multiply a b)
         \<and> limbs_val (digits (t81bigint_karatsuba_multiply a b))
             = limbs_val (digits a) * limbs_val (digits b)
         \<and> sign (t81bigint_karatsuba_multiply a b)
             = (if limbs_val (digits a) * limbs_val (digits b) = 0 then 0
                else (sign a + sign b) mod 2)"
proof (cases "digits a = [0] \<or> digits b = [0]")
  case True
  then have z: "(length (digits a) = 1 \<and> digits a ! 0 = 0) \<or> (length (digits b) = 1 \<and> digits b ! 0 = 0)"
    by auto
  from True have "limbs_val (digits a) * limbs_val (digits b) = 0" by auto
  with z show ?thesis
    by (simp add: t81bigint_karatsuba_multiply_def canonical_def)
next
  case False
  have nz: "\<not> ((length (digits a) = 1 \<and> digits a ! 0 = 0) \<or> (length (digits b) = 1 \<and> digits b ! 0 = 0))"
  proof
    assume "(length (digits a) = 1 \<and> digits a ! 0 = 0) \<or> (length (digits b) = 1 \<and> digits b ! 0 = 0)"
    then have "digits a = [0] \<or> digits b = [0]"
      by (metis One_nat_def length_0_conv length_Suc_conv nth_Cons_0)
    with False show False by simp
  qed
  define n where "n = max (length (digits a)) (length (digits b))"
  define A where "A = digits a @ replicate (n - length (digits a)) 0"
  define B where "B = digits b @ replicate (n - length (digits b)) 0"
  define prod where "prod = karatsuba A B n"
  have r: "t81bigint_karatsuba_multiply a b
             = \<lparr>sign = (if sign a \<noteq> sign b then 1 else 0), digits = strip_high prod\<rparr>"
    unfolding t81bigint_karatsuba_multiply_def Let_def n_def A_def B_def prod_def
    by (simp only: nz if_False)
  from la lb have n16: "n \<le> 16" by (simp add: n_def)
  from a have "digits a \<noteq> []" by (simp add: canonical_def)
  then have n1: "1 \<le> n" by (cases "digits a") (simp_all add: n_def)
  have lenA: "length A = n" and lenB: "length B = n" by (simp_all add: A_def B_def n_def)
  have cellsA: "\<forall>k < n. A ! k \<le> 80"
    using canonical_cells [OF a] by (auto simp: A_def nth_append)
  have cellsB: "\<forall>k < n. B ! k \<le> 80"
    using canonical_cells [OF b] by (auto simp: B_def nth_append)
  have tA: "take n A = A" and tB: "take n B = B" by (simp_all add: lenA lenB)
  have vA: "limbs_val A = limbs_val (digits a)" and vB: "limbs_val B = limbs_val (digits b)"
    by (simp_all add: A_def B_def limbs_val_pad)
  have peq: "prod = naive_mul A n B n"
    using n16 by (simp add: prod_def karatsuba.simps [of A B n])
  have "limbs_val (naive_mul A n B n) = limbs_val (take n A) * limbs_val (take n B)
         \<and> length (naive_mul A n B n) = n + n
         \<and> (\<forall>k < n + n. naive_mul A n B n ! k \<le> 80)"
    by (rule naive_mul_val) (simp_all add: lenA lenB cellsA cellsB)
  then have pv: "limbs_val prod = limbs_val (digits a) * limbs_val (digits b)"
    and plen: "length prod = n + n" and pcells: "\<forall>k < n + n. prod ! k \<le> 80"
    unfolding peq [symmetric] tA tB vA vB by simp_all
  from plen n1 have pne: "prod \<noteq> []" by auto
  have sv: "limbs_val (strip_high prod) = limbs_val (digits a) * limbs_val (digits b)"
    by (simp add: strip_high_val pv)
  have scells: "list_all (\<lambda>d. d \<le> 80) (strip_high prod)"
  proof -
    from pcells plen have "\<forall>d \<in> set prod. d \<le> 80" by (auto simp: in_set_conv_nth)
    with strip_high_set [of prod] show ?thesis by (auto simp: list_all_iff)
  qed
  from False have "limbs_val (digits a) \<noteq> 0" and "limbs_val (digits b) \<noteq> 0"
    by (simp_all add: canonical_val_zero [OF a] canonical_val_zero [OF b])
  then have pnz: "limbs_val (digits a) * limbs_val (digits b) \<noteq> 0" by simp
  with sv have snz: "strip_high prod \<noteq> [0]" by auto
  from a b have signs: "sign a \<le> 1" "sign b \<le> 1" by (auto simp: canonical_def)
  have canon: "canonical \<lparr>sign = (if sign a \<noteq> sign b then 1 else 0), digits = strip_high prod\<rparr>"
    using strip_high_stripped [OF pne] scells snz by (simp add: canonical_def)
  from signs have "sign a = 0 \<or> sign a = 1" and "sign b = 0 \<or> sign b = 1" by auto
  then have "(if sign a \<noteq> sign b then 1 else 0) = (sign a + sign b) mod 2"
    by auto
  with canon sv pnz show ?thesis by (simp add: r)
qed

section \<open>The text of a number determines it\<close>

text \<open>The characters \<open>t81bigint_to_trit_string\<close> writes: the three digits and the sign.\<close>

lemma char_of_48: "char_of (48::nat) = CHR ''0''" by code_simp

lemma char_of_49: "char_of (49::nat) = CHR ''1''" by code_simp

lemma char_of_50: "char_of (50::nat) = CHR ''2''" by code_simp

lemma char_of_trit:
  "c < 3 \<Longrightarrow> char_of (48 + c :: nat) \<in> {CHR ''0'', CHR ''1'', CHR ''2''}"
proof -
  assume "c < 3"
  then consider "c = 0" | "c = 1" | "c = 2" by linarith
  then show ?thesis
    by cases (simp_all add: char_of_48 char_of_49 char_of_50)
qed

lemma trit_loop_chars:
  "set (trit_loop ds buf) \<subseteq> set buf \<union> {CHR ''0'', CHR ''1'', CHR ''2''}"
proof (induction ds buf rule: trit_loop.induct)
  case (1 ds buf)
  show ?case
  proof (cases "list_all (\<lambda>d. d = 0) ds")
    case True
    then show ?thesis by (subst trit_loop.simps) auto
  next
    case False
    obtain qs carry where p: "div3_pass ds = (qs, carry)" by (cases "div3_pass ds")
    from div3_pass_val [OF p] have "carry < 3" by simp
    from char_of_trit [OF this] have c: "char_of (48 + carry) \<in> {CHR ''0'', CHR ''1'', CHR ''2''}" .
    from "1.IH" [OF False p [symmetric] refl]
    have "set (trit_loop qs (buf @ [char_of (48 + carry)]))
            \<subseteq> set (buf @ [char_of (48 + carry)]) \<union> {CHR ''0'', CHR ''1'', CHR ''2''}" .
    with c have "set (trit_loop qs (buf @ [char_of (48 + carry)]))
            \<subseteq> set buf \<union> {CHR ''0'', CHR ''1'', CHR ''2''}" by auto
    with False p show ?thesis by (subst trit_loop.simps) simp
  qed
qed

lemma to_trit_string_chars:
  "set (t81bigint_to_trit_string x) \<subseteq> {CHR ''0'', CHR ''1'', CHR ''2'', CHR ''-''}"
  using trit_loop_chars [of "digits x" "[]"]
  by (auto simp: t81bigint_to_trit_string_def Let_def)

lemma to_trit_string_no_colon: "CHR '':'' \<notin> set (t81bigint_to_trit_string x)"
  using to_trit_string_chars [of x] by auto

text \<open>
  The value of a text read from its least significant end, each character counting
  \<open>c - '0'\<close>; a \<open>'-'\<close> counts 0.
\<close>

fun lsb_trits_val :: "string \<Rightarrow> nat" where
  "lsb_trits_val [] = 0"
| "lsb_trits_val (c # cs) = ((of_char c :: nat) - 48) + 3 * lsb_trits_val cs"

lemma lsb_trits_val_append:
  "lsb_trits_val (xs @ ys) = lsb_trits_val xs + 3 ^ length xs * lsb_trits_val ys"
  by (induction xs) (simp_all add: algebra_simps)

lemma of_char_trit: "c < 3 \<Longrightarrow> (of_char (char_of (48 + c :: nat)) :: nat) - 48 = c"
  by simp

lemma trit_loop_val:
  "lsb_trits_val (trit_loop ds buf) = lsb_trits_val buf + 3 ^ length buf * limbs_val ds"
proof (induction ds buf rule: trit_loop.induct)
  case (1 ds buf)
  show ?case
  proof (cases "list_all (\<lambda>d. d = 0) ds")
    case True
    then have "limbs_val ds = 0" by (simp add: limbs_val_zero)
    with True show ?thesis by (subst trit_loop.simps) simp
  next
    case False
    obtain qs carry where p: "div3_pass ds = (qs, carry)" by (cases "div3_pass ds")
    from div3_pass_val [OF p] have v: "3 * limbs_val qs + carry = limbs_val ds" and c: "carry < 3"
      by simp_all
    have step: "trit_loop ds buf = trit_loop qs (buf @ [char_of (48 + carry)])"
      using False p by (subst trit_loop.simps) simp
    have "lsb_trits_val (trit_loop qs (buf @ [char_of (48 + carry)]))
            = lsb_trits_val (buf @ [char_of (48 + carry)])
              + 3 ^ length (buf @ [char_of (48 + carry)]) * limbs_val qs"
      by (rule "1.IH" [OF False p [symmetric] refl])
    also have "\<dots> = lsb_trits_val buf + 3 ^ length buf * carry + 3 ^ length buf * (3 * limbs_val qs)"
      using c by (simp add: lsb_trits_val_append of_char_trit)
    also have "\<dots> = lsb_trits_val buf + 3 ^ length buf * (3 * limbs_val qs + carry)"
      by (simp add: algebra_simps)
    finally show ?thesis unfolding step v .
  qed
qed

lemma trit_loop_nonempty: "trit_loop ds buf \<noteq> []"
proof (induction ds buf rule: trit_loop.induct)
  case (1 ds buf)
  show ?case
  proof (cases "list_all (\<lambda>d. d = 0) ds")
    case True
    then show ?thesis by (subst trit_loop.simps) simp
  next
    case False
    obtain qs carry where p: "div3_pass ds = (qs, carry)" by (cases "div3_pass ds")
    from "1.IH" [OF False p [symmetric] refl] False p show ?thesis
      by (subst trit_loop.simps) simp
  qed
qed

lemma trit_loop_length:
  "limbs_val ds < 3 ^ k \<Longrightarrow> length (trit_loop ds buf) \<le> max 1 (length buf + k)"
proof (induction ds buf arbitrary: k rule: trit_loop.induct)
  case (1 ds buf)
  show ?case
  proof (cases "list_all (\<lambda>d. d = 0) ds")
    case True
    then show ?thesis by (subst trit_loop.simps) (auto simp: max_def)
  next
    case False
    obtain qs carry where p: "div3_pass ds = (qs, carry)" by (cases "div3_pass ds")
    from div3_pass_val [OF p] have v: "3 * limbs_val qs + carry = limbs_val ds" by simp
    from False have "limbs_val ds \<noteq> 0" by (simp add: limbs_val_zero)
    with "1.prems" have "k \<noteq> 0" by (cases k) auto
    then obtain k' where k: "k = Suc k'" by (cases k) auto
    from "1.prems" v have "3 * limbs_val qs < 3 * 3 ^ k'" by (simp add: k)
    then have "limbs_val qs < 3 ^ k'" by simp
    from "1.IH" [OF False p [symmetric] refl this]
    have "length (trit_loop qs (buf @ [char_of (48 + carry)])) \<le> max 1 (length buf + k)"
      by (simp add: k)
    with False p show ?thesis by (subst trit_loop.simps) simp
  qed
qed

lemma single_zero_cell: "length ds = 1 \<and> ds ! 0 = 0 \<longleftrightarrow> ds = [0::nat]"
  by (cases ds) auto

lemma to_trit_string_zero:
  "digits x = [0] \<Longrightarrow> t81bigint_to_trit_string x = ''0''"
  by (simp add: t81bigint_to_trit_string_def)

lemma to_trit_string_nonzero:
  "digits x \<noteq> [0] \<Longrightarrow>
   t81bigint_to_trit_string x
     = rev (trit_loop (digits x) [] @ (if sign x \<noteq> 0 then ''-'' else []))"
  unfolding t81bigint_to_trit_string_def Let_def single_zero_cell by simp

lemma to_trit_string_val:
  "lsb_trits_val (rev (t81bigint_to_trit_string x)) = limbs_val (digits x)"
proof (cases "digits x = [0]")
  case True
  then show ?thesis by (simp add: to_trit_string_zero)
next
  case False
  then show ?thesis
    by (simp add: to_trit_string_nonzero trit_loop_val lsb_trits_val_append)
qed

lemma to_trit_string_length:
  assumes "limbs_val (digits x) < 3 ^ k" and "1 \<le> k"
  shows "length (t81bigint_to_trit_string x) \<le> k + 1"
proof (cases "digits x = [0]")
  case True
  then show ?thesis by (simp add: to_trit_string_zero)
next
  case False
  from trit_loop_length [OF assms(1), of "[]"] assms(2)
  have "length (trit_loop (digits x) []) \<le> k" by (simp add: max_def)
  with False show ?thesis by (simp add: to_trit_string_nonzero)
qed

lemma to_trit_string_sign:
  assumes "canonical x"
  shows "hd (t81bigint_to_trit_string x) = CHR ''-'' \<longleftrightarrow> sign x = 1"
proof (cases "digits x = [0]")
  case True
  with assms have "sign x = 0" by (auto simp: canonical_def)
  with True show ?thesis by (simp add: to_trit_string_zero)
next
  case False
  have ne: "trit_loop (digits x) [] \<noteq> []" by (rule trit_loop_nonempty)
  then have "last (trit_loop (digits x) []) \<in> set (trit_loop (digits x) [])" by simp
  with trit_loop_chars [of "digits x" "[]"]
  have l: "last (trit_loop (digits x) []) \<noteq> CHR ''-''" by auto
  from assms have "sign x = 0 \<or> sign x = 1" by (auto simp: canonical_def)
  then show ?thesis
  proof
    assume "sign x = 0"
    with False ne l show ?thesis by (simp add: to_trit_string_nonzero hd_rev)
  next
    assume "sign x = 1"
    with False show ?thesis by (simp add: to_trit_string_nonzero)
  qed
qed

lemma to_trit_string_inj:
  assumes x: "canonical x" and y: "canonical y"
    and t: "t81bigint_to_trit_string x = t81bigint_to_trit_string y"
  shows "x = y"
proof -
  from to_trit_string_val [of x] to_trit_string_val [of y] t
  have "limbs_val (digits x) = limbs_val (digits y)" by simp
  then have d: "digits x = digits y" by (rule canonical_digits_inj [OF x y])
  from to_trit_string_sign [OF x] to_trit_string_sign [OF y] t
  have "sign x = 1 \<longleftrightarrow> sign y = 1" by simp
  moreover from x y have "sign x = 0 \<or> sign x = 1" and "sign y = 0 \<or> sign y = 1"
    by (auto simp: canonical_def)
  ultimately have "sign x = sign y" by auto
  with d show ?thesis by simp
qed

section \<open>Cache keys\<close>

lemma split_at_separator:
  assumes "c \<notin> set xs" "c \<notin> set xs'" "xs @ c # ys = xs' @ c # ys'"
  shows "xs = xs' \<and> ys = ys'"
proof -
  have tw: "takeWhile (\<lambda>x. x \<noteq> c) (zs @ c # ws) = zs" if "c \<notin> set zs" for zs ws :: "'a list"
    using that by (induction zs) auto
  have "takeWhile (\<lambda>x. x \<noteq> c) (xs @ c # ys) = xs"
    using assms(1) by (rule tw)
  moreover have "takeWhile (\<lambda>x. x \<noteq> c) (xs' @ c # ys') = xs'"
    using assms(2) by (rule tw)
  ultimately have "xs = xs'" using assms(3) by simp
  with assms(3) show ?thesis by simp
qed

text \<open>
  C8, the claim as stated fails: the key is built in operand order, so the pairs
  (1, 2) and (2, 1) get different keys.
\<close>

theorem mul_cache_key_order_matters:
  "mul_cache_key \<lparr>sign = 0, digits = [1]\<rparr> \<lparr>sign = 0, digits = [2]\<rparr> = ''mul:1:2''
   \<and> mul_cache_key \<lparr>sign = 0, digits = [2]\<rparr> \<lparr>sign = 0, digits = [1]\<rparr> = ''mul:2:1''"
  by code_simp

lemma mul_cache_key_uncut:
  assumes "length (t81bigint_to_trit_string a) + length (t81bigint_to_trit_string b) \<le> 122"
  shows "mul_cache_key a b = ''mul:'' @ t81bigint_to_trit_string a @ '':'' @ t81bigint_to_trit_string b"
proof -
  have "length (''mul:'' @ t81bigint_to_trit_string a @ '':'' @ t81bigint_to_trit_string b) \<le> 127"
    using assms by simp
  then show ?thesis
    unfolding mul_cache_key_def by (rule take_all)
qed

lemma mul_cache_key_same_text:
  assumes eq: "t81bigint_to_trit_string a = t81bigint_to_trit_string b"
  shows "mul_cache_key a b = mul_cache_key b a"
  unfolding mul_cache_key_def eq ..

lemma mul_cache_key_swap_short:
  assumes len: "length (t81bigint_to_trit_string a) + length (t81bigint_to_trit_string b) \<le> 122"
    and keys: "mul_cache_key a b = mul_cache_key b a"
  shows "t81bigint_to_trit_string a = t81bigint_to_trit_string b"
proof -
  let ?as = "t81bigint_to_trit_string a" and ?bs = "t81bigint_to_trit_string b"
  from len have len': "length ?bs + length ?as \<le> 122" by simp
  have "''mul:'' @ ?as @ '':'' @ ?bs = ''mul:'' @ ?bs @ '':'' @ ?as"
    using keys unfolding mul_cache_key_uncut [OF len] mul_cache_key_uncut [OF len'] .
  then have "?as @ CHR '':'' # ?bs = ?bs @ CHR '':'' # ?as"
    by (simp only: append_Cons append_Nil same_append_eq list.inject simp_thms)
  from split_at_separator [OF to_trit_string_no_colon to_trit_string_no_colon this]
  show ?thesis by (rule conjunct1)
qed

text \<open>
  Looking up and storing. A key that is not found is still not found after another key
  was stored; on a cache with at least one slot the key just stored is found.
\<close>

lemma mul_cache_lookup_None_iff:
  "mul_cache_lookup c k = None \<longleftrightarrow> (\<forall>e \<in> set c. \<not> (used e \<and> key e = k))"
  by (induction c) auto

lemma first_unused_bound: "first_unused c i = Some j \<Longrightarrow> i \<le> j \<and> j < i + length c"
proof (induction c arbitrary: i)
  case Nil
  then show ?case by simp
next
  case (Cons e es)
  show ?case
  proof (cases "used e")
    case True
    with Cons.prems have "first_unused es (i + 1) = Some j" by simp
    from Cons.IH [OF this] show ?thesis by simp
  next
    case False
    with Cons.prems show ?thesis by simp
  qed
qed

lemma mul_cache_lookup_update:
  "i < length c \<Longrightarrow> mul_cache_lookup c k = None
     \<Longrightarrow> mul_cache_lookup (c[i := \<lparr>key = k, result = v, used = True\<rparr>]) k = Some v"
proof (induction c arbitrary: i)
  case Nil
  then show ?case by simp
next
  case (Cons e es)
  from Cons.prems(2) have e: "\<not> (used e \<and> key e = k)" and es: "mul_cache_lookup es k = None"
    by (auto split: if_splits)
  show ?case
  proof (cases i)
    case 0
    then show ?thesis by simp
  next
    case (Suc j)
    with Cons.prems(1) have "j < length es" by simp
    from Cons.IH [OF this es] Suc e show ?thesis by auto
  qed
qed

lemma mul_cache_store_slot:
  "c \<noteq> [] \<Longrightarrow> \<exists>i < length c. mul_cache_store c k v = c[i := \<lparr>key = take 127 k, result = v, used = True\<rparr>]"
proof (cases "first_unused c 0")
  case None
  assume "c \<noteq> []"
  then have "0 < length c" by simp
  with None show ?thesis
    unfolding mul_cache_store_def by (intro exI [of _ 0]) simp
next
  case (Some j)
  from first_unused_bound [OF Some] have "j < length c" by simp
  with Some show ?thesis
    unfolding mul_cache_store_def by (intro exI [of _ j]) simp
qed

lemma mul_cache_lookup_store_same:
  assumes "c \<noteq> []" "mul_cache_lookup c (take 127 k) = None"
  shows "mul_cache_lookup (mul_cache_store c k v) (take 127 k) = Some v"
proof -
  from mul_cache_store_slot [OF assms(1)] obtain i where i: "i < length c"
    and s: "mul_cache_store c k v = c[i := \<lparr>key = take 127 k, result = v, used = True\<rparr>]"
    by blast
  show ?thesis
    unfolding s using i assms(2) by (rule mul_cache_lookup_update)
qed

lemma mul_cache_lookup_store_other:
  assumes "mul_cache_lookup c k' = None" "k' \<noteq> take 127 k"
  shows "mul_cache_lookup (mul_cache_store c k v) k' = None"
proof -
  have "set (mul_cache_store c k v) \<subseteq> insert \<lparr>key = take 127 k, result = v, used = True\<rparr> (set c)"
    unfolding mul_cache_store_def Let_def by (rule set_update_subset_insert)
  with assms show ?thesis
    unfolding mul_cache_lookup_None_iff by auto
qed

lemma mul_cache_key_cut: "take 127 (mul_cache_key a b) = mul_cache_key a b"
  unfolding mul_cache_key_def by (simp only: take_take min.idem)

lemma multiply_with_cache_hit:
  "mul_cache_lookup c (mul_cache_key a b) = Some r \<Longrightarrow> multiply_with_cache c a b = (c, r)"
  by (simp add: multiply_with_cache_def)

lemma multiply_with_cache_miss:
  "mul_cache_lookup c (mul_cache_key a b) = None \<Longrightarrow>
     multiply_with_cache c a b
       = (mul_cache_store c (mul_cache_key a b) (t81bigint_karatsuba_multiply a b),
          t81bigint_karatsuba_multiply a b)"
  by (simp add: multiply_with_cache_def Let_def)

lemma multiply_with_cache_found:
  assumes first: "multiply_with_cache c a b = (c1, r1)" and c: "c \<noteq> []"
  shows "mul_cache_lookup c1 (mul_cache_key a b) = Some r1"
proof (cases "mul_cache_lookup c (mul_cache_key a b)")
  case None
  from first multiply_with_cache_miss [OF None]
  have c1: "c1 = mul_cache_store c (mul_cache_key a b) r1"
    and r1: "r1 = t81bigint_karatsuba_multiply a b" by auto
  from None have "mul_cache_lookup c (take 127 (mul_cache_key a b)) = None"
    by (simp only: mul_cache_key_cut)
  from mul_cache_lookup_store_same [OF c this, of r1]
  show ?thesis unfolding c1 by (simp only: mul_cache_key_cut)
next
  case (Some out)
  from first multiply_with_cache_hit [OF Some] have "c1 = c" "r1 = out" by simp_all
  with Some show ?thesis by simp
qed

text \<open>
  C8, amended. The key of \<open>(A, B)\<close> is the text \<open>mul:A:B\<close> in operand order, cut to
  127 characters. The keys of \<open>(A, B)\<close> and \<open>(B, A)\<close> are equal when the two operands
  print to the same text; when the two texts together have at most 122 characters
  (so that no key is cut) they are equal only then; and two canonical operands print to
  the same text only when they are equal. After \<open>multiply_with_cache\<close> on \<open>(A, B)\<close>,
  with a cache of at least one slot (the program's has 8), the key of \<open>(A, B)\<close> is found
  with the result returned (after a miss, the product, stored under that key). A
  following call on \<open>(B, A)\<close> is served from that entry when the two keys are equal;
  when they differ and the cache held no entry for \<open>(B, A)\<close>, the key of \<open>(B, A)\<close> is
  still not found, and the call multiplies again and stores the product under its own
  key.
\<close>

theorem multiply_with_cache_order:
  assumes first: "multiply_with_cache c a b = (c1, r1)" and c: "c \<noteq> []"
  shows "mul_cache_key a b
           = take 127 (''mul:'' @ t81bigint_to_trit_string a @ '':'' @ t81bigint_to_trit_string b)
       \<and> (t81bigint_to_trit_string a = t81bigint_to_trit_string b
            \<longrightarrow> mul_cache_key b a = mul_cache_key a b)
       \<and> (length (t81bigint_to_trit_string a) + length (t81bigint_to_trit_string b) \<le> 122
            \<longrightarrow> (mul_cache_key b a = mul_cache_key a b
                 \<longleftrightarrow> t81bigint_to_trit_string a = t81bigint_to_trit_string b))
       \<and> (canonical a \<and> canonical b
            \<longrightarrow> (t81bigint_to_trit_string a = t81bigint_to_trit_string b \<longleftrightarrow> a = b))
       \<and> (mul_cache_lookup c (mul_cache_key a b) = None \<longrightarrow>
            r1 = t81bigint_karatsuba_multiply a b
            \<and> c1 = mul_cache_store c (mul_cache_key a b) r1)
       \<and> mul_cache_lookup c1 (mul_cache_key a b) = Some r1
       \<and> (mul_cache_key b a = mul_cache_key a b \<longrightarrow> multiply_with_cache c1 b a = (c1, r1))
       \<and> (mul_cache_key b a \<noteq> mul_cache_key a b \<and> mul_cache_lookup c (mul_cache_key b a) = None \<longrightarrow>
            mul_cache_lookup c1 (mul_cache_key b a) = None
            \<and> multiply_with_cache c1 b a
                = (mul_cache_store c1 (mul_cache_key b a) (t81bigint_karatsuba_multiply b a),
                   t81bigint_karatsuba_multiply b a))"
proof -
  have found: "mul_cache_lookup c1 (mul_cache_key a b) = Some r1"
    using first c by (rule multiply_with_cache_found)
  have same: "mul_cache_key b a = mul_cache_key a b"
    if "t81bigint_to_trit_string a = t81bigint_to_trit_string b"
    using that by (simp only: mul_cache_key_same_text)
  have only: "mul_cache_key b a = mul_cache_key a b
                 \<longleftrightarrow> t81bigint_to_trit_string a = t81bigint_to_trit_string b"
    if len: "length (t81bigint_to_trit_string a) + length (t81bigint_to_trit_string b) \<le> 122"
  proof
    assume "mul_cache_key b a = mul_cache_key a b"
    then have "mul_cache_key a b = mul_cache_key b a" by (rule sym)
    with len show "t81bigint_to_trit_string a = t81bigint_to_trit_string b"
      by (rule mul_cache_key_swap_short)
  next
    assume "t81bigint_to_trit_string a = t81bigint_to_trit_string b"
    then show "mul_cache_key b a = mul_cache_key a b" by (rule same)
  qed
  have miss1: "r1 = t81bigint_karatsuba_multiply a b \<and> c1 = mul_cache_store c (mul_cache_key a b) r1"
    if "mul_cache_lookup c (mul_cache_key a b) = None"
    using first multiply_with_cache_miss [OF that] by auto
  have hit2: "multiply_with_cache c1 b a = (c1, r1)" if "mul_cache_key b a = mul_cache_key a b"
  proof -
    from found that have "mul_cache_lookup c1 (mul_cache_key b a) = Some r1" by simp
    then show ?thesis by (rule multiply_with_cache_hit)
  qed
  have miss2: "mul_cache_lookup c1 (mul_cache_key b a) = None
            \<and> multiply_with_cache c1 b a
                = (mul_cache_store c1 (mul_cache_key b a) (t81bigint_karatsuba_multiply b a),
                   t81bigint_karatsuba_multiply b a)"
    if ne: "mul_cache_key b a \<noteq> mul_cache_key a b" and none: "mul_cache_lookup c (mul_cache_key b a) = None"
  proof -
    have l: "mul_cache_lookup c1 (mul_cache_key b a) = None"
    proof (cases "mul_cache_lookup c (mul_cache_key a b)")
      case None
      from miss1 [OF None] have c1: "c1 = mul_cache_store c (mul_cache_key a b) r1" by simp
      have "mul_cache_key b a \<noteq> take 127 (mul_cache_key a b)"
        unfolding mul_cache_key_cut by (rule ne)
      from mul_cache_lookup_store_other [OF none this] show ?thesis
        unfolding c1 .
    next
      case (Some out)
      from first multiply_with_cache_hit [OF Some] have "c1 = c" by simp
      with none show ?thesis by simp
    qed
    from l multiply_with_cache_miss [OF l] show ?thesis by (rule conjI)
  qed
  have p1: "t81bigint_to_trit_string a = t81bigint_to_trit_string b
            \<longrightarrow> mul_cache_key b a = mul_cache_key a b"
    by (rule impI) (rule same)
  have p0: "mul_cache_key a b
           = take 127 (''mul:'' @ t81bigint_to_trit_string a @ '':'' @ t81bigint_to_trit_string b)"
    by (rule mul_cache_key_def)
  have p2: "length (t81bigint_to_trit_string a) + length (t81bigint_to_trit_string b) \<le> 122
            \<longrightarrow> (mul_cache_key b a = mul_cache_key a b
                 \<longleftrightarrow> t81bigint_to_trit_string a = t81bigint_to_trit_string b)"
    by (rule impI) (rule only)
  have p2': "canonical a \<and> canonical b
            \<longrightarrow> (t81bigint_to_trit_string a = t81bigint_to_trit_string b \<longleftrightarrow> a = b)"
  proof (rule impI, erule conjE, rule iffI)
    assume "canonical a" "canonical b" "t81bigint_to_trit_string a = t81bigint_to_trit_string b"
    then show "a = b" by (rule to_trit_string_inj)
  next
    assume "a = b"
    then show "t81bigint_to_trit_string a = t81bigint_to_trit_string b" by (rule arg_cong)
  qed
  have p3: "mul_cache_lookup c (mul_cache_key a b) = None \<longrightarrow>
            r1 = t81bigint_karatsuba_multiply a b
            \<and> c1 = mul_cache_store c (mul_cache_key a b) r1"
    by (rule impI) (rule miss1)
  have p5: "mul_cache_key b a = mul_cache_key a b \<longrightarrow> multiply_with_cache c1 b a = (c1, r1)"
    by (rule impI) (rule hit2)
  have p6: "mul_cache_key b a \<noteq> mul_cache_key a b \<and> mul_cache_lookup c (mul_cache_key b a) = None \<longrightarrow>
            mul_cache_lookup c1 (mul_cache_key b a) = None
            \<and> multiply_with_cache c1 b a
                = (mul_cache_store c1 (mul_cache_key b a) (t81bigint_karatsuba_multiply b a),
                   t81bigint_karatsuba_multiply b a)"
  proof (rule impI, erule conjE)
    assume ne: "mul_cache_key b a \<noteq> mul_cache_key a b"
      and none: "mul_cache_lookup c (mul_cache_key b a) = None"
    from ne none
    show "mul_cache_lookup c1 (mul_cache_key b a) = None
            \<and> multiply_with_cache c1 b a
                = (mul_cache_store c1 (mul_cache_key b a) (t81bigint_karatsuba_multiply b a),
                   t81bigint_karatsuba_multiply b a)"
      by (rule miss2)
  qed
  show ?thesis
    by (intro conjI) (rule p0 p1 p2 p2' p3 found p5 p6)+
qed

text \<open>
  From the empty cache, 5 times 7 and then 7 times 5: the second call misses, and the
  cache ends with the two entries \<open>mul:12:21\<close> and \<open>mul:21:12\<close>.
\<close>

theorem multiply_with_cache_order_witness:
  "multiply_with_cache empty_cache \<lparr>sign = 0, digits = [5]\<rparr> \<lparr>sign = 0, digits = [7]\<rparr>
     = (mul_cache_store empty_cache ''mul:12:21'' \<lparr>sign = 0, digits = [35]\<rparr>, \<lparr>sign = 0, digits = [35]\<rparr>)
   \<and> empty_cache \<noteq> []
   \<and> canonical \<lparr>sign = 0, digits = [5]\<rparr> \<and> canonical \<lparr>sign = 0, digits = [7]\<rparr>
   \<and> length (t81bigint_to_trit_string \<lparr>sign = 0, digits = [5]\<rparr>)
       + length (t81bigint_to_trit_string \<lparr>sign = 0, digits = [7]\<rparr>) \<le> 122
   \<and> mul_cache_key \<lparr>sign = 0, digits = [7]\<rparr> \<lparr>sign = 0, digits = [5]\<rparr>
       \<noteq> mul_cache_key \<lparr>sign = 0, digits = [5]\<rparr> \<lparr>sign = 0, digits = [7]\<rparr>
   \<and> mul_cache_lookup empty_cache (mul_cache_key \<lparr>sign = 0, digits = [7]\<rparr> \<lparr>sign = 0, digits = [5]\<rparr>) = None
   \<and> mul_cache_lookup (mul_cache_store empty_cache ''mul:12:21'' \<lparr>sign = 0, digits = [35]\<rparr>)
        (mul_cache_key \<lparr>sign = 0, digits = [5]\<rparr> \<lparr>sign = 0, digits = [7]\<rparr>)
       = Some \<lparr>sign = 0, digits = [35]\<rparr>
   \<and> mul_cache_lookup (mul_cache_store empty_cache ''mul:12:21'' \<lparr>sign = 0, digits = [35]\<rparr>)
        (mul_cache_key \<lparr>sign = 0, digits = [7]\<rparr> \<lparr>sign = 0, digits = [5]\<rparr>)
       = None
   \<and> map key (filter used (fst (multiply_with_cache
         (mul_cache_store empty_cache ''mul:12:21'' \<lparr>sign = 0, digits = [35]\<rparr>)
         \<lparr>sign = 0, digits = [7]\<rparr> \<lparr>sign = 0, digits = [5]\<rparr>)))
       = [''mul:12:21'', ''mul:21:12'']"
proof -
  let ?a = "\<lparr>sign = 0, digits = [5]\<rparr>" and ?b = "\<lparr>sign = 0, digits = [7]\<rparr>"
  let ?r = "\<lparr>sign = 0, digits = [35]\<rparr>"
  let ?c1 = "mul_cache_store empty_cache ''mul:12:21'' ?r"
  have first: "multiply_with_cache empty_cache ?a ?b = (?c1, ?r)" by code_simp
  have c: "empty_cache \<noteq> []" by code_simp
  have ca: "canonical ?a" and cb: "canonical ?b" by code_simp+
  have len: "length (t81bigint_to_trit_string ?a) + length (t81bigint_to_trit_string ?b) \<le> 122"
    by code_simp
  have "?a \<noteq> ?b" by simp
  with multiply_with_cache_order [OF first c] ca cb len
  have ne: "mul_cache_key ?b ?a \<noteq> mul_cache_key ?a ?b" by blast
  have none: "mul_cache_lookup empty_cache (mul_cache_key ?b ?a) = None" by code_simp
  from multiply_with_cache_order [OF first c] ne none
  have found: "mul_cache_lookup ?c1 (mul_cache_key ?a ?b) = Some ?r"
    and miss: "mul_cache_lookup ?c1 (mul_cache_key ?b ?a) = None"
    and second: "multiply_with_cache ?c1 ?b ?a
                = (mul_cache_store ?c1 (mul_cache_key ?b ?a) (t81bigint_karatsuba_multiply ?b ?a),
                   t81bigint_karatsuba_multiply ?b ?a)"
    by blast+
  have two: "map key (filter used (mul_cache_store ?c1 (mul_cache_key ?b ?a)
                 (t81bigint_karatsuba_multiply ?b ?a))) = [''mul:12:21'', ''mul:21:12'']"
    by code_simp
  from two have two': "map key (filter used (fst (multiply_with_cache ?c1 ?b ?a)))
       = [''mul:12:21'', ''mul:21:12'']"
    unfolding second fst_conv .
  from first c ca cb len ne none found miss two' show ?thesis
    by (intro conjI)
qed

section \<open>The cache on small canonical numbers\<close>

text \<open>
  Numbers below \<open>3^60 = 81^15\<close>: at most 15 cells, so \<open>karatsuba\<close> multiplies them by
  \<open>naive_mul\<close>, and at most 61 characters of text, so the key of a pair is not cut.
\<close>

definition small_canonical :: "T81BigInt \<Rightarrow> bool" where
  "small_canonical x \<longleftrightarrow> canonical x \<and> limbs_val (digits x) < 3 ^ 60"

text \<open>
  A cache is sound when every used entry whose key is the key of a pair of small
  canonical numbers holds the result of multiplying that pair. The cache of a starting
  program is sound, and multiplying small canonical numbers keeps it so.
\<close>

definition cache_sound :: "mul_cache \<Rightarrow> bool" where
  "cache_sound cache \<longleftrightarrow>
     (\<forall>e \<in> set cache. used e \<longrightarrow>
        (\<forall>a b. small_canonical a \<and> small_canonical b \<and> mul_cache_key a b = key e
           \<longrightarrow> result e = t81bigint_karatsuba_multiply a b))"

lemma pow_3_60: "(3::nat) ^ 60 = 81 ^ 15"
  by simp

lemma small_canonical_length:
  assumes "small_canonical x"
  shows "length (digits x) \<le> 16"
proof -
  from assms have "canonical x" and "limbs_val (digits x) < 81 ^ 15"
    by (simp_all add: small_canonical_def)
  then have "length (digits x) \<le> 15" by (intro canonical_short) simp_all
  then show ?thesis by simp
qed

lemma small_canonical_text:
  assumes "small_canonical x"
  shows "length (t81bigint_to_trit_string x) \<le> 61"
proof -
  from assms have "limbs_val (digits x) < 3 ^ 60" by (simp add: small_canonical_def)
  from to_trit_string_length [OF this] show ?thesis by simp
qed

lemma small_canonical_key:
  assumes "small_canonical a" and "small_canonical b"
  shows "mul_cache_key a b = ''mul:'' @ t81bigint_to_trit_string a @ '':'' @ t81bigint_to_trit_string b"
proof (rule mul_cache_key_uncut)
  from small_canonical_text [OF assms(1)] small_canonical_text [OF assms(2)]
  show "length (t81bigint_to_trit_string a) + length (t81bigint_to_trit_string b) \<le> 122"
    by simp
qed

lemma small_canonical_key_inj:
  assumes a: "small_canonical a" and b: "small_canonical b"
    and a': "small_canonical a'" and b': "small_canonical b'"
    and k: "mul_cache_key a b = mul_cache_key a' b'"
  shows "a = a' \<and> b = b'"
proof -
  from k have "''mul:'' @ t81bigint_to_trit_string a @ '':'' @ t81bigint_to_trit_string b
                = ''mul:'' @ t81bigint_to_trit_string a' @ '':'' @ t81bigint_to_trit_string b'"
    unfolding small_canonical_key [OF a b] small_canonical_key [OF a' b'] .
  then have "t81bigint_to_trit_string a @ CHR '':'' # t81bigint_to_trit_string b
               = t81bigint_to_trit_string a' @ CHR '':'' # t81bigint_to_trit_string b'"
    by (simp only: append_Cons append_Nil same_append_eq list.inject simp_thms)
  from split_at_separator [OF to_trit_string_no_colon to_trit_string_no_colon this]
  have "t81bigint_to_trit_string a = t81bigint_to_trit_string a'"
    and "t81bigint_to_trit_string b = t81bigint_to_trit_string b'" by simp_all
  moreover from a b a' b' have "canonical a" "canonical b" "canonical a'" "canonical b'"
    by (simp_all add: small_canonical_def)
  ultimately show ?thesis by (intro conjI to_trit_string_inj)
qed

lemma mul_cache_lookup_Some:
  "mul_cache_lookup cache k = Some r \<Longrightarrow> \<exists>e \<in> set cache. used e \<and> key e = k \<and> result e = r"
  by (induction cache) (auto split: if_splits)

lemma cache_sound_empty: "cache_sound empty_cache"
  by (simp add: cache_sound_def empty_cache_def)

lemma cache_sound_lookup:
  assumes "cache_sound cache" and "small_canonical a" and "small_canonical b"
    and "mul_cache_lookup cache (mul_cache_key a b) = Some r"
  shows "r = t81bigint_karatsuba_multiply a b"
proof -
  from mul_cache_lookup_Some [OF assms(4)] obtain e
    where e: "e \<in> set cache" "used e" "key e = mul_cache_key a b" "result e = r" by blast
  from assms(1) e(1,2) assms(2,3) e(3) have "result e = t81bigint_karatsuba_multiply a b"
    unfolding cache_sound_def by metis
  with e(4) show ?thesis by simp
qed

lemma cache_sound_store:
  assumes c: "cache_sound cache" and a: "small_canonical a" and b: "small_canonical b"
  shows "cache_sound (mul_cache_store cache (mul_cache_key a b) (t81bigint_karatsuba_multiply a b))"
proof -
  define e' where "e' = \<lparr>key = mul_cache_key a b, result = t81bigint_karatsuba_multiply a b, used = True\<rparr>"
  obtain slot where st: "mul_cache_store cache (mul_cache_key a b) (t81bigint_karatsuba_multiply a b)
                     = cache[slot := e']"
    unfolding mul_cache_store_def Let_def mul_cache_key_cut e'_def by blast
  have new: "result e' = t81bigint_karatsuba_multiply x y"
    if "small_canonical x" "small_canonical y" "mul_cache_key x y = key e'" for x y
  proof -
    from that(3) have "mul_cache_key x y = mul_cache_key a b" by (simp add: e'_def)
    from small_canonical_key_inj [OF that(1,2) a b this] show ?thesis by (simp add: e'_def)
  qed
  show ?thesis
    unfolding st cache_sound_def
  proof (intro ballI impI allI)
    fix e x y
    assume e: "e \<in> set (cache[slot := e'])" and u: "used e"
      and xy: "small_canonical x \<and> small_canonical y \<and> mul_cache_key x y = key e"
    from e set_update_subset_insert [of cache slot e'] have "e = e' \<or> e \<in> set cache" by auto
    then show "result e = t81bigint_karatsuba_multiply x y"
    proof
      assume "e = e'"
      with new xy show ?thesis by simp
    next
      assume "e \<in> set cache"
      with c u xy show ?thesis unfolding cache_sound_def by metis
    qed
  qed
qed

lemma multiply_with_cache_sound:
  assumes c: "cache_sound cache" and a: "small_canonical a" and b: "small_canonical b"
    and m: "multiply_with_cache cache a b = (cache', r)"
  shows "r = t81bigint_karatsuba_multiply a b \<and> cache_sound cache'"
proof (cases "mul_cache_lookup cache (mul_cache_key a b)")
  case None
  with m have "r = t81bigint_karatsuba_multiply a b"
    and "cache' = mul_cache_store cache (mul_cache_key a b) (t81bigint_karatsuba_multiply a b)"
    by (auto simp: multiply_with_cache_def Let_def)
  with cache_sound_store [OF c a b] show ?thesis by simp
next
  case (Some out)
  with m have "r = out" and "cache' = cache"
    by (auto simp: multiply_with_cache_def Let_def)
  with cache_sound_lookup [OF c a b Some] c show ?thesis by simp
qed

section \<open>The power of a small canonical number\<close>

lemma power_loop_exact:
  assumes "cache_sound cache" and "canonical base" and "canonical res"
    and "\<forall>j \<le> k. limbs_val (digits res) * limbs_val (digits base) ^ j < 3 ^ 60"
    and "0 < k \<longrightarrow> limbs_val (digits base) < 3 ^ 60"
    and "power_loop k cache res base = (cache', r)"
  shows "cache_sound cache' \<and> canonical r
         \<and> limbs_val (digits r) = limbs_val (digits res) * limbs_val (digits base) ^ k
         \<and> sign r = (if limbs_val (digits r) = 0 then 0 else (sign res + k * sign base) mod 2)"
  using assms
proof (induction k arbitrary: cache res)
  case 0
  from "0.prems"(6) have eq: "cache' = cache" "r = res" by auto
  from "0.prems"(3) have "sign res = 0 \<or> (sign res = 1 \<and> digits res \<noteq> [0])"
    by (simp add: canonical_def)
  with canonical_val_zero [OF "0.prems"(3)]
  have s: "(if limbs_val (digits res) = 0 then 0 else (sign res + 0 * sign base) mod 2) = sign res"
    by auto
  from "0.prems"(1,3) s show ?case unfolding eq by simp
next
  case (Suc k)
  obtain c1 tmp where m: "multiply_with_cache cache res base = (c1, tmp)"
    by (cases "multiply_with_cache cache res base")
  from Suc.prems(4) have "limbs_val (digits res) * limbs_val (digits base) ^ 0 < 3 ^ 60"
    by blast
  with Suc.prems(3) have sres: "small_canonical res" by (simp add: small_canonical_def)
  from Suc.prems(2,5) have sbase: "small_canonical base" by (simp add: small_canonical_def)
  from multiply_with_cache_sound [OF Suc.prems(1) sres sbase m]
  have tmp: "tmp = t81bigint_karatsuba_multiply res base" and c1: "cache_sound c1" by simp_all
  from karatsuba_multiply_exact [OF Suc.prems(3) Suc.prems(2)
        small_canonical_length [OF sres] small_canonical_length [OF sbase]]
  have ct: "canonical tmp"
    and vt: "limbs_val (digits tmp) = limbs_val (digits res) * limbs_val (digits base)"
    and st: "sign tmp = (if limbs_val (digits res) * limbs_val (digits base) = 0 then 0
                         else (sign res + sign base) mod 2)"
    unfolding tmp by simp_all
  have bound: "\<forall>j \<le> k. limbs_val (digits tmp) * limbs_val (digits base) ^ j < 3 ^ 60"
  proof (intro allI impI)
    fix j assume "j \<le> k"
    then have "Suc j \<le> Suc k" by simp
    with Suc.prems(4) have "limbs_val (digits res) * limbs_val (digits base) ^ Suc j < 3 ^ 60"
      by blast
    then show "limbs_val (digits tmp) * limbs_val (digits base) ^ j < 3 ^ 60"
      by (simp add: vt mult.assoc)
  qed
  from Suc.prems(5) have b5: "0 < k \<longrightarrow> limbs_val (digits base) < 3 ^ 60" by simp
  from Suc.prems(6) m have rec: "power_loop k c1 tmp base = (cache', r)" by simp
  from Suc.IH [OF c1 Suc.prems(2) ct bound b5 rec]
  have cs: "cache_sound cache'" and cr: "canonical r"
    and vr: "limbs_val (digits r) = limbs_val (digits tmp) * limbs_val (digits base) ^ k"
    and sr: "sign r = (if limbs_val (digits r) = 0 then 0 else (sign tmp + k * sign base) mod 2)"
    by simp_all
  from vr vt have vr': "limbs_val (digits r) = limbs_val (digits res) * limbs_val (digits base) ^ Suc k"
    by (simp add: mult.assoc)
  have "sign r = (if limbs_val (digits r) = 0 then 0 else (sign res + Suc k * sign base) mod 2)"
  proof (cases "limbs_val (digits r) = 0")
    case True
    with sr show ?thesis by simp
  next
    case False
    with vr have "limbs_val (digits tmp) \<noteq> 0" by auto
    with vt st have "sign tmp = (sign res + sign base) mod 2" by simp
    with sr False have "sign r = ((sign res + sign base) mod 2 + k * sign base) mod 2" by simp
    also have "\<dots> = (sign res + sign base + k * sign base) mod 2" by (simp add: mod_add_left_eq)
    also have "\<dots> = (sign res + Suc k * sign base) mod 2" by (simp add: algebra_simps)
    finally show ?thesis using False by simp
  qed
  with cs cr vr' show ?case by simp
qed

lemma power_bound_mono:
  assumes "(v::nat) ^ e < m" and "j \<le> e" and "1 < m"
  shows "v ^ j < m"
proof (cases "v = 0")
  case True
  have "(0::nat) ^ j \<le> 1" by (cases j) simp_all
  with assms(3) True show ?thesis by simp
next
  case False
  then have "1 \<le> v" by simp
  from power_increasing [OF assms(2) this] assms(1) show ?thesis by simp
qed

text \<open>
  Where \<open>tritjs_power_big\<close> is right: a canonical base, an exponent of one cell
  \<open>e \<le> 80\<close> with sign 0, a power below \<open>3^60\<close> and a sound cache (the one a program
  starts with is sound). Then every product of the loop has at most 15 cells, so it is
  formed by \<open>naive_mul\<close>, and no key is cut: the call succeeds, the result is canonical
  and stands for the power, and the cache is sound again.
\<close>

lemma tritjs_power_big_exact:
  assumes c: "cache_sound cache" and b: "canonical base"
    and s: "sign exp = 0" and d: "digits exp = [e]" and e: "e \<le> 80"
    and bound: "limbs_val (digits base) ^ e < 3 ^ 60"
  shows "\<exists>cache' res. tritjs_power_big cache base exp = (cache', Inr res)
           \<and> cache_sound cache' \<and> canonical res \<and> bigint_val res = bigint_val base ^ e"
proof -
  let ?v = "limbs_val (digits base)"
  let ?one = "\<lparr>sign = 0, digits = [1]\<rparr>"
  obtain c1 r where pl: "power_loop e cache ?one base = (c1, r)"
    by (cases "power_loop e cache ?one base")
  have one: "canonical ?one" by (simp add: canonical_def)
  have b1: "\<forall>j \<le> e. limbs_val (digits ?one) * ?v ^ j < 3 ^ 60"
  proof (intro allI impI)
    fix j assume "j \<le> e"
    from power_bound_mono [OF bound this] show "limbs_val (digits ?one) * ?v ^ j < 3 ^ 60"
      by simp
  qed
  have b2: "0 < e \<longrightarrow> ?v < 3 ^ 60"
  proof
    assume "0 < e"
    then have "1 \<le> e" by simp
    from power_bound_mono [OF bound this] show "?v < 3 ^ 60" by simp
  qed
  from power_loop_exact [OF c b one b1 b2 pl]
  have cs: "cache_sound c1" and cr: "canonical r"
    and vr: "limbs_val (digits r) = ?v ^ e"
    and sr: "sign r = (if limbs_val (digits r) = 0 then 0 else (e * sign base) mod 2)"
    by simp_all
  from b have sb: "sign base = 0 \<or> (sign base = 1 \<and> digits base \<noteq> [0])"
    by (simp add: canonical_def)
  define res where "res = (if sign base \<noteq> 0 \<and> int e mod 2 = 1 then r\<lparr>sign := 1\<rparr> else r)"
  have call: "tritjs_power_big cache base exp = (c1, Inr res)"
    using s d e pl
    by (simp add: tritjs_power_big_def is_small_value_def to_small_int_def Let_def res_def)
  have "canonical res \<and> bigint_val res = bigint_val base ^ e"
  proof (cases "sign base = 0")
    case True
    with sr have "sign r = 0" by simp
    with True cr vr show ?thesis by (simp add: res_def bigint_val_def)
  next
    case False
    with sb have s1: "sign base = 1" and nz: "digits base \<noteq> [0]" by simp_all
    from nz canonical_val_zero [OF b] have "?v \<noteq> 0" by simp
    then have vnz: "?v ^ e \<noteq> 0" by simp
    with vr have rv: "limbs_val (digits r) \<noteq> 0" by simp
    from sr have "sign r = (e * sign base) mod 2" by (simp only: rv if_False)
    with s1 have sr': "sign r = e mod 2" by simp
    have rnz: "digits r \<noteq> [0]"
      using rv unfolding canonical_val_zero [OF cr] .
    show ?thesis
    proof (cases "even e")
      case True
      then have "\<not> int e mod 2 = 1" by presburger
      then have rr: "res = r" by (simp add: res_def)
      from True sr' have "sign r = 0" by simp
      with cr vr s1 True show ?thesis by (simp add: rr bigint_val_def)
    next
      case odd: False
      then have "int e mod 2 = 1" by presburger
      with s1 have rr: "res = r\<lparr>sign := 1\<rparr>" by (simp add: res_def)
      from cr rnz have "canonical (r\<lparr>sign := 1\<rparr>)" by (simp add: canonical_def)
      with vr s1 odd show ?thesis by (simp add: rr bigint_val_def)
    qed
  qed
  with call cs show ?thesis by blast
qed

lemma tritjs_power_big_exact_example:
  "snd (tritjs_power_big empty_cache \<lparr>sign = 1, digits = [2]\<rparr> \<lparr>sign = 0, digits = [3]\<rparr>)
     = Inr \<lparr>sign = 1, digits = [8]\<rparr>"
  by code_simp

section \<open>Karatsuba against schoolbook multiplication\<close>

text \<open>
  The operands of the failing product: \<open>A\<close> is \<open>80 * 81^8 + 81^17\<close> in 18 cells and
  \<open>B\<close> is 1, zero-padded to 18 cells as \<open>t81bigint_karatsuba_multiply\<close> does.
\<close>

definition kara_A :: "nat list" where
  "kara_A = [0, 0, 0, 0, 0, 0, 0, 0, 80, 0, 0, 0, 0, 0, 0, 0, 0, 1]"

definition kara_B :: "nat list" where
  "kara_B = [1, 0, 0, 0, 0, 0, 0, 0, 0, 0, 0, 0, 0, 0, 0, 0, 0, 0]"

lemma karatsuba_eval_18:
  "karatsuba kara_A kara_B 18 =
     [0, 0, 0, 0, 0, 0, 0, 0, 80, 0, 0, 0, 0, 0, 0, 0, 0, 1,
      80, 80, 80, 80, 80, 80, 80, 80, 80, 80, 80, 80, 80, 80, 80, 80, 80, 80]"
  unfolding kara_A_def kara_B_def by (simp add: eval_rules)

lemma naive_mul_eval_18:
  "naive_mul kara_A 18 kara_B 18 =
     [0, 0, 0, 0, 0, 0, 0, 0, 80, 0, 0, 0, 0, 0, 0, 0, 0, 1,
      0, 0, 0, 0, 0, 0, 0, 0, 0, 0, 0, 0, 0, 0, 0, 0, 0, 0]"
  unfolding kara_A_def kara_B_def by (simp add: eval_rules)

text \<open>
  C3, at the failing input. With 18 cells the two halves have 9 cells each; the sum of
  the halves of \<open>A\<close> is \<open>81^9\<close>, whose carry out of cell 8 \<open>karatsuba\<close> drops, so the
  middle product is formed from 0. \<open>karatsuba\<close> returns \<open>80 * 81^8 + 81^17\<close> plus the
  eighteen cells 80 above it, where \<open>naive_mul\<close> returns \<open>80 * 81^8 + 81^17\<close>, the
  product. Through \<open>t81bigint_karatsuba_multiply\<close> the canonical number \<open>A\<close> times one
  is a number of 36 cells.
\<close>

theorem karatsuba_differs_from_naive_mul:
  "karatsuba kara_A kara_B 18 \<noteq> naive_mul kara_A 18 kara_B 18
   \<and> limbs_val (naive_mul kara_A 18 kara_B 18) = limbs_val kara_A * limbs_val kara_B
   \<and> limbs_val (karatsuba kara_A kara_B 18) \<noteq> limbs_val kara_A * limbs_val kara_B
   \<and> canonical \<lparr>sign = 0, digits = kara_A\<rparr>
   \<and> length (digits (t81bigint_karatsuba_multiply \<lparr>sign = 0, digits = kara_A\<rparr>
                      \<lparr>sign = 0, digits = [1]\<rparr>)) = 36"
proof -
  have pad: "[1] @ replicate (18 - length [1::nat]) 0 = kara_B"
    by (simp add: kara_B_def replicate_numeral_eval)
  have len: "length kara_A = 18"
    by (simp add: kara_A_def)
  have strip: "strip_high (karatsuba kara_A kara_B 18) = karatsuba kara_A kara_B 18"
    unfolding karatsuba_eval_18 by (subst strip_high.simps) simp
  have mul: "digits (t81bigint_karatsuba_multiply \<lparr>sign = 0, digits = kara_A\<rparr>
                      \<lparr>sign = 0, digits = [1]\<rparr>) = karatsuba kara_A kara_B 18"
    using pad by (simp add: t81bigint_karatsuba_multiply_def len strip)
  have canon: "canonical \<lparr>sign = 0, digits = kara_A\<rparr>"
    by (simp add: canonical_def kara_A_def)
  have v1: "limbs_val (naive_mul kara_A 18 kara_B 18) = limbs_val kara_A * limbs_val kara_B"
    unfolding naive_mul_eval_18 by (simp add: kara_A_def kara_B_def)
  have v2: "limbs_val (karatsuba kara_A kara_B 18) \<noteq> limbs_val kara_A * limbs_val kara_B"
    unfolding karatsuba_eval_18 by (simp add: kara_A_def kara_B_def)
  have ne: "karatsuba kara_A kara_B 18 \<noteq> naive_mul kara_A 18 kara_B 18"
    unfolding karatsuba_eval_18 naive_mul_eval_18 by simp
  from ne v1 v2 canon mul show ?thesis
    by (simp add: karatsuba_eval_18)
qed

section \<open>Power: the result\<close>

text \<open>
  The product \<open>1 * A\<close> as the loop of \<open>tritjs_power_big\<close> forms it, with the result so
  far as the first operand and the base \<open>A = 80 * 81^8 + 81^17\<close> as the second.
\<close>

lemma karatsuba_eval_18_swapped:
  "karatsuba kara_B kara_A 18 =
     [0, 0, 0, 0, 0, 0, 0, 0, 80, 0, 0, 0, 0, 0, 0, 0, 0, 1,
      80, 80, 80, 80, 80, 80, 80, 80, 80, 80, 80, 80, 80, 80, 80, 80, 80, 80]"
  unfolding kara_A_def kara_B_def by (simp add: eval_rules)

text \<open>No key is found in the cache a program starts with.\<close>

lemma mul_cache_lookup_empty: "mul_cache_lookup empty_cache k = None"
  by (simp add: empty_cache_def replicate_numeral_eval)

text \<open>
  An exponent of two cells or more is refused by \<open>is_small_value\<close>, whatever the base
  and the cache; the test \<open>e > 1000\<close> sees single cells only, which are at most 255.
\<close>

lemma power_two_cells_overflow:
  "tritjs_power_big cache base \<lparr>sign = 0, digits = d0 # d1 # ds\<rparr> = (cache, Inl Overflow)"
  by (simp add: tritjs_power_big_def is_small_value_def)

text \<open>
  C6, at the failing inputs. The base \<open>A = 80 * 81^8 + 81^17\<close> is canonical and has 18
  cells. With the exponent 1 the loop multiplies one by \<open>A\<close> once, through
  \<open>multiply_with_cache\<close> and \<open>karatsuba\<close> with 18 cells, where the sum of the two halves
  of \<open>A\<close> loses its carry: the result is \<open>A\<close> plus eighteen cells 80 above it, not \<open>A\<close>.
  The exponent 81 (cells 0, 1) is below 1000 and is refused with error 4.
\<close>

theorem power_one_wrong:
  "canonical \<lparr>sign = 0, digits = kara_A\<rparr>
   \<and> snd (tritjs_power_big empty_cache \<lparr>sign = 0, digits = kara_A\<rparr> \<lparr>sign = 0, digits = [1]\<rparr>)
       = Inr \<lparr>sign = 0, digits =
           [0, 0, 0, 0, 0, 0, 0, 0, 80, 0, 0, 0, 0, 0, 0, 0, 0, 1,
            80, 80, 80, 80, 80, 80, 80, 80, 80, 80, 80, 80, 80, 80, 80, 80, 80, 80]\<rparr>
   \<and> bigint_val \<lparr>sign = 0, digits =
           [0, 0, 0, 0, 0, 0, 0, 0, 80, 0, 0, 0, 0, 0, 0, 0, 0, 1,
            80, 80, 80, 80, 80, 80, 80, 80, 80, 80, 80, 80, 80, 80, 80, 80, 80, 80]\<rparr>
       \<noteq> bigint_val \<lparr>sign = 0, digits = kara_A\<rparr> ^ 1
   \<and> limbs_val [0, 1] = 81
   \<and> tritjs_power_big empty_cache \<lparr>sign = 0, digits = [2]\<rparr> \<lparr>sign = 0, digits = [0, 1]\<rparr>
       = (empty_cache, Inl Overflow)"
proof -
  have pad: "[1] @ replicate (18 - length [1::nat]) 0 = kara_B"
    by (simp add: kara_B_def replicate_numeral_eval)
  have len: "length kara_A = 18"
    by (simp add: kara_A_def)
  have strip: "strip_high (karatsuba kara_B kara_A 18) = karatsuba kara_B kara_A 18"
    unfolding karatsuba_eval_18_swapped by (subst strip_high.simps) simp
  have mul: "t81bigint_karatsuba_multiply \<lparr>sign = 0, digits = [1]\<rparr> \<lparr>sign = 0, digits = kara_A\<rparr>
               = \<lparr>sign = 0, digits = karatsuba kara_B kara_A 18\<rparr>"
    using pad by (simp add: t81bigint_karatsuba_multiply_def len strip)
  have pw: "snd (tritjs_power_big empty_cache \<lparr>sign = 0, digits = kara_A\<rparr> \<lparr>sign = 0, digits = [1]\<rparr>)
       = Inr \<lparr>sign = 0, digits = karatsuba kara_B kara_A 18\<rparr>"
    by (simp add: tritjs_power_big_def is_small_value_def to_small_int_def multiply_with_cache_def
        mul_cache_lookup_empty mul [simplified] Let_def)
  have canon: "canonical \<lparr>sign = 0, digits = kara_A\<rparr>"
    by (simp add: canonical_def kara_A_def)
  have ne: "bigint_val \<lparr>sign = 0, digits =
           [0, 0, 0, 0, 0, 0, 0, 0, 80, 0, 0, 0, 0, 0, 0, 0, 0, 1,
            80, 80, 80, 80, 80, 80, 80, 80, 80, 80, 80, 80, 80, 80, 80, 80, 80, 80]\<rparr>
       \<noteq> bigint_val \<lparr>sign = 0, digits = kara_A\<rparr> ^ 1"
    by (simp add: bigint_val_def kara_A_def)
  have ov: "tritjs_power_big empty_cache \<lparr>sign = 0, digits = [2]\<rparr> \<lparr>sign = 0, digits = [0, 1]\<rparr>
       = (empty_cache, Inl Overflow)"
    by (simp add: tritjs_power_big_def is_small_value_def)
  from canon pw ne ov show ?thesis
    by (simp add: karatsuba_eval_18_swapped)
qed

section \<open>Division\<close>

text \<open>
  C1, at the failing input. \<open>tritjs_divide_big\<close> starts the running remainder as a
  copy of the dividend instead of zero, so the first quotient digit is searched against
  \<open>a * 81 + a[len - 1]\<close>: 1 divided by 1 returns the quotient 82 (a cell above 80) with
  remainder 0, and 5 divided by 7 returns the quotient 58 with remainder 4.
\<close>

theorem divide_one_by_one:
  "tritjs_divide_big \<lparr>sign = 0, digits = [1]\<rparr> \<lparr>sign = 0, digits = [1]\<rparr>
     = Some (Inr (\<lparr>sign = 0, digits = [82]\<rparr>, \<lparr>sign = 0, digits = [0]\<rparr>))
   \<and> tritjs_divide_big \<lparr>sign = 0, digits = [5]\<rparr> \<lparr>sign = 0, digits = [7]\<rparr>
     = Some (Inr (\<lparr>sign = 0, digits = [58]\<rparr>, \<lparr>sign = 0, digits = [4]\<rparr>))"
  by code_simp

text \<open>The part of C1 that holds: a divisor whose cells are all zero is error 3.\<close>

lemma divide_by_zero:
  "list_all (\<lambda>d. d = 0) (digits b) \<Longrightarrow> tritjs_divide_big a b = Some (Inl DivZero)"
  by (simp add: tritjs_divide_big_def)

section \<open>The round trip through text\<close>

text \<open>
  C2, at the failing input. The canonical number 82 (cells 1, 1) prints as \<open>"10001"\<close>;
  parsing that text grows the buffer for the carry with \<open>allocate_digits\<close>, which
  zeroes the cell already written, and returns 81 (cells 0, 1).
\<close>

theorem round_trip_82:
  "canonical \<lparr>sign = 0, digits = [1, 1]\<rparr>
   \<and> t81bigint_to_trit_string \<lparr>sign = 0, digits = [1, 1]\<rparr> = ''10001''
   \<and> parse_trit_string (t81bigint_to_trit_string \<lparr>sign = 0, digits = [1, 1]\<rparr>)
       = Inr \<lparr>sign = 0, digits = [0, 1]\<rparr>"
  by code_simp

section \<open>Canonical results\<close>

text \<open>
  C5, at the failing inputs. The logical operations do not end with the stripping
  loop and apply the helpers to whole cells: the AND of the canonical numbers with cells
  1, 1 and with cell 1 has the cells 1, 0 (a zero cell on top), and the NOT of the
  canonical number 5 has the cell 253 (outside 0..80).
\<close>

theorem logical_results_not_canonical:
  "canonical \<lparr>sign = 0, digits = [1, 1]\<rparr> \<and> canonical \<lparr>sign = 0, digits = [1]\<rparr>
   \<and> tritjs_logical_and \<lparr>sign = 0, digits = [1, 1]\<rparr> \<lparr>sign = 0, digits = [1]\<rparr>
       = \<lparr>sign = 0, digits = [1, 0]\<rparr>
   \<and> \<not> canonical (tritjs_logical_and \<lparr>sign = 0, digits = [1, 1]\<rparr> \<lparr>sign = 0, digits = [1]\<rparr>)
   \<and> canonical \<lparr>sign = 0, digits = [5]\<rparr>
   \<and> tritjs_logical_not \<lparr>sign = 0, digits = [5]\<rparr> = \<lparr>sign = 0, digits = [253]\<rparr>
   \<and> \<not> canonical (tritjs_logical_not \<lparr>sign = 0, digits = [5]\<rparr>)"
  by code_simp

section \<open>Opcode encoding and validation\<close>

text \<open>
  C9, at the failing input. The opcode \<open>TSUB = 2\<close> converts to the single trit -1
  (\<open>t81bigint_from_int\<close> counts the trits of the unbalanced form), prints as \<open>"T"\<close>, and
  its checksum is \<open>(0 + -1) % 9 = -1\<close>, printed by \<open>"%d"\<close> as the two characters
  \<open>"-1"\<close>. \<open>discrete_opcode_validate\<close> reads \<open>'-'\<close> as a digit of value \<open>'-' - '0'\<close>
  and refuses the text. The same happens for \<open>TAND = 5\<close>, \<open>TOR = 6\<close> and
  \<open>TMAT_ADD = 8\<close>.
\<close>

theorem opcode_tsub_encoding_refused:
  "discrete_opcode_encode 2 = ''T-1''
   \<and> \<not> discrete_opcode_validate (discrete_opcode_encode 2)
   \<and> filter (\<lambda>opcode. \<not> discrete_opcode_validate (discrete_opcode_encode opcode)) opcode_set
       = [2, 5, 6, 8]"
  by code_simp

end
